theory Spec2Isabelle
  imports Main "HOL-Library.AList"
begin

section \<open>Values, names and paths\<close>

text \<open>
  JavaScript values as far as \<open>index.js\<close> looks at them: a name argument is tested with
  \<open>isString\<close>, the \<open>nested\<close> flag of \<open>clear\<close> is tested for truthiness, and item values are
  opaque. A string is a list of characters. \<open>JStr\<close> is a primitive string, \<open>JString\<close> a
  String object (\<open>new String('kid')\<close>), and \<open>JObj\<close> stands for any other object (a regular
  expression, a date, ...).
\<close>

datatype jsval =
  JUndefined | JNull | JBool bool | JNum int | JNaN | JStr string | JString string | JObj nat

fun truthy :: "jsval \<Rightarrow> bool" where
  "truthy JUndefined = False"
| "truthy JNull = False"
| "truthy (JBool b) = b"
| "truthy (JNum n) = (n \<noteq> 0)"
| "truthy JNaN = False"
| "truthy (JStr s) = (s \<noteq> [])"
| "truthy (JString s) = True"
| "truthy (JObj k) = True"

text \<open>The white space that \<open>trim\<close> strips, among the characters below 256.\<close>

definition whitespace :: "char list" where
  "whitespace = [CHR 0x09, CHR 0x0A, CHR 0x0B, CHR 0x0C, CHR 0x0D, CHR 0x20, CHR 0xA0]"

definition trim :: "string \<Rightarrow> string" where
  "trim str = rev (dropWhile (\<lambda>c. c \<in> set whitespace) (rev (dropWhile (\<lambda>c. c \<in> set whitespace) str)))"

text \<open>
  \<open>isString\<close> of the utility library: true of a primitive string and of a String object,
  false of every other value.
\<close>

fun isString :: "jsval \<Rightarrow> bool" where
  "isString (JStr str) = True"
| "isString (JString str) = True"
| "isString v = False"

text \<open>
  The characters of a name that is a string. \<open>trim\<close> and \<open>split\<close> work on them, for a
  String object as for a primitive string.
\<close>

fun the_string :: "jsval \<Rightarrow> string" where
  "the_string (JStr str) = str"
| "the_string (JString str) = str"
| "the_string v = []"

text \<open>
  \<open>throwIfInvalidName\<close>: the test \<open>!isString(name) || isEmpty(trim(name))\<close>;
  \<open>True\<close> when the function throws.
\<close>

definition throwIfInvalidName :: "jsval \<Rightarrow> bool" where
  "throwIfInvalidName name = (\<not> isString name \<or> trim (the_string name) = [])"

text \<open>
  The names the specification calls invalid: anything that is not a string, the empty
  string, and a string of white space only. A String object is a string, as it is for
  \<open>isString\<close>.
\<close>

fun spec_invalid_name :: "jsval \<Rightarrow> bool" where
  "spec_invalid_name (JStr str) = list_all (\<lambda>c. c \<in> set whitespace) str"
| "spec_invalid_name (JString str) = list_all (\<lambda>c. c \<in> set whitespace) str"
| "spec_invalid_name v = True"

text \<open>\<open>name.split('/')\<close>: never empty; an empty name gives one empty segment.\<close>

fun split :: "string \<Rightarrow> string list" where
  "split [] = [[]]"
| "split (c # cs) =
     (if c = CHR ''/'' then [] # split cs
      else (c # hd (split cs)) # tl (split cs))"

section \<open>Stores\<close>

text \<open>
  A reference is a \<open>Store\<close> instance or the proxy that \<open>readonly\<close> makes of one
  (\<open>Object.create(store)\<close>). The WeakMap \<open>data\<close> is the heap: the store with identity \<open>i\<close> has
  its entry at index \<open>i\<close>, a proxy has none.
\<close>

datatype ref = Plain nat | Readonly nat

text \<open>
  The entry of a store in \<open>data\<close>. \<open>children\<close> is a plain object: its own properties in
  creation order. \<open>items\<close> is a \<open>Map\<close>: its entries in insertion order.
\<close>

record meta =
  children :: "(string \<times> nat) list"
  parent :: "ref option"
  items :: "(string \<times> jsval) list"

datatype event =
    ItemSet string jsval
  | ItemRemoved string
  | StoreCleared
  | StoreAdded string nat

text \<open>
  The state of the program: the WeakMap, and every event emitted so far with the store it
  was emitted on, oldest first.
\<close>

record state =
  heap :: "meta list"
  emitted :: "(nat \<times> event) list"

datatype error = InvalidName | InvalidAncestor | PathError | ReadonlyError | TypeError

definition empty_state :: state where
  "empty_state = \<lparr>heap = [], emitted = []\<rparr>"

definition data_get :: "state \<Rightarrow> ref \<Rightarrow> meta option" where
  "data_get s r =
     (case r of
        Plain i \<Rightarrow> if i < length (heap s) then Some (heap s ! i) else None
      | Readonly i \<Rightarrow> None)"

text \<open>
  Modelled from the spec: \<open>emit\<close> is inherited from the external event broker, which
  calls the listeners of the event on that store at once and in the order they were added.
  The state records the event; a subscription is run over the record.
\<close>

definition emit :: "nat \<Rightarrow> event \<Rightarrow> state \<Rightarrow> state" where
  "emit i e s = s\<lparr>emitted := emitted s @ [(i, e)]\<rparr>"

definition set_children :: "nat \<Rightarrow> (string \<times> nat) list \<Rightarrow> state \<Rightarrow> state" where
  "set_children i cs s = s\<lparr>heap := (heap s)[i := (heap s ! i)\<lparr>children := cs\<rparr>]\<rparr>"

definition set_items :: "nat \<Rightarrow> (string \<times> jsval) list \<Rightarrow> state \<Rightarrow> state" where
  "set_items i its s = s\<lparr>heap := (heap s)[i := (heap s ! i)\<lparr>items := its\<rparr>]\<rparr>"

text \<open>
  The constructor. Its argument is \<open>undefined\<close>, a reference (a proxy is an
  \<open>instanceof Store\<close> too) or anything else, which throws.
\<close>

datatype ancestor = NoAncestor | AncestorRef ref | AncestorOther jsval

fun Store :: "state \<Rightarrow> ancestor \<Rightarrow> (error + ref) \<times> state" where
  "Store s (AncestorOther v) = (Inl InvalidAncestor, s)"
| "Store s NoAncestor =
     (Inr (Plain (length (heap s))),
      s\<lparr>heap := heap s @ [\<lparr>children = [], parent = None, items = []\<rparr>]\<rparr>)"
| "Store s (AncestorRef r) =
     (Inr (Plain (length (heap s))),
      s\<lparr>heap := heap s @ [\<lparr>children = [], parent = Some r, items = []\<rparr>]\<rparr>)"

subsection \<open>Path resolution\<close>

text \<open>
  \<open>children[name]\<close> reads a plain object, so a name that \<open>Object.prototype\<close> defines is
  found on the prototype chain when the object has no own property of that name.
\<close>

definition objectPrototype :: "string list" where
  "objectPrototype =
     [''constructor'', ''__defineGetter__'', ''__defineSetter__'', ''hasOwnProperty'',
      ''__lookupGetter__'', ''__lookupSetter__'', ''isPrototypeOf'', ''propertyIsEnumerable'',
      ''toString'', ''valueOf'', ''__proto__'', ''toLocaleString'']"

datatype property = Undefined | AStore nat | Inherited

definition child_of :: "(string \<times> nat) list \<Rightarrow> string \<Rightarrow> property" where
  "child_of cs name =
     (case map_of cs name of
        Some c \<Rightarrow> AStore c
      | None \<Rightarrow> if name \<in> set objectPrototype then Inherited else Undefined)"

definition Map_has :: "(string \<times> 'v) list \<Rightarrow> string \<Rightarrow> bool" where
  "Map_has m k = (map_of m k \<noteq> None)"

text \<open>
  \<open>items.has(name)\<close> for a name as the caller passed it. The keys of the \<open>Map\<close> are
  primitive strings (\<open>set\<close> stores under a segment that \<open>split\<close> returned), and a String
  object is not the same value as any of them.
\<close>

fun Map_has_value :: "(string \<times> 'v) list \<Rightarrow> jsval \<Rightarrow> bool" where
  "Map_has_value m (JStr k) = Map_has m k"
| "Map_has_value m v = False"

definition Map_get :: "(string \<times> jsval) list \<Rightarrow> string \<Rightarrow> jsval" where
  "Map_get m k = (case map_of m k of None \<Rightarrow> JUndefined | Some v \<Rightarrow> v)"

text \<open>
  One round of the \<open>reduce\<close> callback of \<open>getChildStore\<close>: the first \<open>if\<close> creates the
  child, the second throws unless \<open>child\<close> is a store by now.
\<close>

definition descend :: "state \<Rightarrow> ref \<Rightarrow> string \<Rightarrow> (error + ref) \<times> state" where
  "descend s store name =
     (case store of
        Readonly p \<Rightarrow> (Inl TypeError, s)
      | Plain i \<Rightarrow>
          (case data_get s store of
             None \<Rightarrow> (Inl TypeError, s)
           | Some m \<Rightarrow>
               (let child = child_of (children m) name;
                    (child, s) =
                      (if child = Undefined \<and> \<not> Map_has (items m) name then
                         (let c = length (heap s);
                              s = snd (Store s (AncestorRef store));
                              s = set_children i (children m @ [(name, c)]) s;
                              s = emit i (StoreAdded name c) s
                          in (AStore c, s))
                       else (child, s))
                in case child of
                     AStore c \<Rightarrow> (Inr (Plain c), s)
                   | _ \<Rightarrow> (Inl PathError, s))))"

fun getChildStore :: "state \<Rightarrow> ref \<Rightarrow> string list \<Rightarrow> (error + ref) \<times> state" where
  "getChildStore s base [] = (Inr base, s)"
| "getChildStore s store (name # names) =
     (case descend s store name of
        (Inl e, s') \<Rightarrow> (Inl e, s')
      | (Inr child, s') \<Rightarrow> getChildStore s' child names)"

text \<open>
  \<open>getPropData\<close>: the resolved store, the last segment and the store's entry in \<open>data\<close>
  (the source reads \<open>items\<close> from it).
\<close>

definition getPropData ::
  "state \<Rightarrow> ref \<Rightarrow> string \<Rightarrow> (error + nat \<times> string \<times> meta) \<times> state" where
  "getPropData s base name =
     (let names = split name; prop = last names in
      case getChildStore s base (butlast names) of
        (Inl e, s') \<Rightarrow> (Inl e, s')
      | (Inr store, s') \<Rightarrow>
          (case store of
             Readonly p \<Rightarrow> (Inl TypeError, s')
           | Plain i \<Rightarrow>
               (case data_get s' store of
                  None \<Rightarrow> (Inl TypeError, s')
                | Some m \<Rightarrow> (Inr (i, prop, m), s'))))"

subsection \<open>Readonly proxies\<close>

text \<open>
  \<open>readonly(store)\<close> makes a proxy whose \<open>set\<close>, \<open>delete\<close> and \<open>clear\<close> are
  \<open>readonlyMethod\<close> and whose \<open>for\<close>, \<open>has\<close>, \<open>parent\<close> and \<open>root\<close> are bound to the store.
  Every other method comes from the prototype chain and runs with the proxy as \<open>this\<close>.
  \<open>lookup r m\<close> is what \<open>r[m]\<close> runs: \<open>None\<close> for \<open>readonlyMethod\<close>, otherwise the method
  of \<open>Store.prototype\<close> with the given \<open>this\<close>.
\<close>

datatype meth =
  M_for | M_parent | M_root | M_has | M_get | M_set | M_delete | M_remove | M_clear

definition readonlyMethods :: "meth list" where
  "readonlyMethods = [M_set, M_delete, M_clear]"

definition boundMethods :: "meth list" where
  "boundMethods = [M_for, M_has, M_parent, M_root]"

fun readonly :: "ref \<Rightarrow> ref" where
  "readonly (Plain i) = Readonly i"
| "readonly (Readonly i) = Readonly i"

fun lookup :: "ref \<Rightarrow> meth \<Rightarrow> ref option" where
  "lookup (Plain i) m = Some (Plain i)"
| "lookup (Readonly i) m =
     (if m \<in> set readonlyMethods then None
      else if m \<in> set boundMethods then Some (Plain i)
      else Some (Readonly i))"

subsection \<open>The methods of \<open>Store.prototype\<close>\<close>

definition Store_for :: "state \<Rightarrow> ref \<Rightarrow> jsval \<Rightarrow> (error + ref) \<times> state" where
  "Store_for s this name =
     (if throwIfInvalidName name then (Inl InvalidName, s)
      else getChildStore s this (split (the_string name)))"

definition Store_parent :: "state \<Rightarrow> ref \<Rightarrow> error + ref option" where
  "Store_parent s this =
     (case data_get s this of
        None \<Rightarrow> Inl TypeError
      | Some m \<Rightarrow> Inr (map_option readonly (parent m)))"

text \<open>The \<open>while\<close> loop of \<open>root\<close>; \<open>None\<close> when it does not end.\<close>

partial_function (option) root_loop :: "state \<Rightarrow> ref \<Rightarrow> ref option \<Rightarrow> (error + ref) option" where
  "root_loop s current ancestor =
     (case ancestor of
        None \<Rightarrow> Some (Inr (readonly current))
      | Some a \<Rightarrow>
          (case data_get s a of
             None \<Rightarrow> Some (Inl TypeError)
           | Some m \<Rightarrow> root_loop s a (parent m)))"

definition Store_root :: "state \<Rightarrow> ref \<Rightarrow> (error + ref) option" where
  "Store_root s this =
     (case data_get s this of
        None \<Rightarrow> Some (Inl TypeError)
      | Some m \<Rightarrow> root_loop s this (parent m))"

definition Store_has :: "state \<Rightarrow> ref \<Rightarrow> jsval \<Rightarrow> error + bool" where
  "Store_has s this name =
     (if throwIfInvalidName name then Inl InvalidName
      else case data_get s this of
             None \<Rightarrow> Inl TypeError
           | Some m \<Rightarrow> Inr (Map_has_value (items m) name))"

definition Store_set :: "state \<Rightarrow> ref \<Rightarrow> jsval \<Rightarrow> jsval \<Rightarrow> (error + ref) \<times> state" where
  "Store_set s this name value =
     (if throwIfInvalidName name then (Inl InvalidName, s)
      else case getPropData s this (the_string name) of
             (Inl e, s) \<Rightarrow> (Inl e, s)
           | (Inr (store, prop, m), s) \<Rightarrow>
               (let s = set_items store (AList.update prop value (items m)) s;
                    s = emit store (ItemSet prop value) s
                in (Inr this, s)))"

text \<open>\<open>delete\<close> as \<open>index.js\<close> has it; \<open>remove\<close> is the same function.\<close>

definition Store_delete :: "state \<Rightarrow> ref \<Rightarrow> jsval \<Rightarrow> (error + unit) \<times> state" where
  "Store_delete s this name =
     (if throwIfInvalidName name then (Inl InvalidName, s)
      else case getPropData s this (the_string name) of
             (Inl e, s) \<Rightarrow> (Inl e, s)
           | (Inr (store, prop, m), s) \<Rightarrow>
               (let s = set_items store (AList.delete prop (items m)) s;
                    s = emit store (ItemRemoved prop) s
                in (Inr (), s)))"

text \<open>
  \<open>delete\<close> as the ES6 source shipped beside \<open>index.js\<close> has it: the removal and the
  event are guarded by \<open>store.has(prop)\<close>.
\<close>

definition Store_delete_es6 :: "state \<Rightarrow> ref \<Rightarrow> jsval \<Rightarrow> (error + unit) \<times> state" where
  "Store_delete_es6 s this name =
     (if throwIfInvalidName name then (Inl InvalidName, s)
      else case getPropData s this (the_string name) of
             (Inl e, s) \<Rightarrow> (Inl e, s)
           | (Inr (store, prop, m), s) \<Rightarrow>
               (case Store_has s (Plain store) (JStr prop) of
                  Inl e \<Rightarrow> (Inl e, s)
                | Inr present \<Rightarrow>
                    if present then
                      (let s = set_items store (AList.delete prop (items m)) s;
                           s = emit store (ItemRemoved prop) s
                       in (Inr (), s))
                    else (Inr (), s)))"

text \<open>
  \<open>forOwn\<close> visits the own properties of \<open>children\<close> in the order of the object's keys:
  the array indices in ascending order, then the other names in creation order.
\<close>

definition digit :: "char \<Rightarrow> bool" where
  "digit c = (c \<in> set ''0123456789'')"

definition decimal :: "string \<Rightarrow> int" where
  "decimal str = foldl (\<lambda>n c. 10 * n + (of_char c - 48)) 0 str"

definition array_index :: "string \<Rightarrow> bool" where
  "array_index str =
     (str \<noteq> [] \<and> list_all digit str \<and> (if hd str = CHR ''0'' then str = ''0'' else True)
      \<and> decimal str < 4294967295)"

definition forOwn :: "(string \<times> nat) list \<Rightarrow> nat list" where
  "forOwn cs =
     map snd (sort_key (\<lambda>(k, c). decimal k) (filter (\<lambda>(k, c). array_index k) cs)
              @ filter (\<lambda>(k, c). \<not> array_index k) cs)"

text \<open>
  The callback of \<open>items.forEach\<close> in \<open>clear\<close>: delete the entry, emit \<open>item-removed\<close>.
\<close>

definition remove_each :: "nat \<Rightarrow> (string \<times> jsval) list \<Rightarrow> state \<Rightarrow> state" where
  "remove_each i its s =
     fold (\<lambda>(name, value) s.
             emit i (ItemRemoved name)
               (set_items i (AList.delete name (items (heap s ! i))) s)) its s"

text \<open>
  \<open>clear\<close> calls itself on every child. The first argument bounds the depth of these
  calls; \<open>None\<close> when the bound is reached.
\<close>

fun Store_clear :: "nat \<Rightarrow> state \<Rightarrow> ref \<Rightarrow> jsval \<Rightarrow> ((error + unit) \<times> state) option"
and clear_children :: "nat \<Rightarrow> state \<Rightarrow> nat list \<Rightarrow> ((error + unit) \<times> state) option" where
  "Store_clear 0 s this nested = None"
| "Store_clear (Suc n) s this nested =
     (case this of
        Readonly p \<Rightarrow> Some (Inl TypeError, s)
      | Plain i \<Rightarrow>
          (case data_get s this of
             None \<Rightarrow> Some (Inl TypeError, s)
           | Some m \<Rightarrow>
               (let s = remove_each i (items m) s in
                case (if truthy nested then clear_children n s (forOwn (children (heap s ! i)))
                      else Some (Inr (), s)) of
                  None \<Rightarrow> None
                | Some (Inl e, s) \<Rightarrow> Some (Inl e, s)
                | Some (Inr u, s) \<Rightarrow> Some (Inr (), emit i StoreCleared s))))"
| "clear_children n s [] = Some (Inr (), s)"
| "clear_children n s (child # rest) =
     (case Store_clear n s (Plain child) (JBool True) of
        None \<Rightarrow> None
      | Some (Inl e, s) \<Rightarrow> Some (Inl e, s)
      | Some (Inr u, s) \<Rightarrow> clear_children n s rest)"

section \<open>Observables\<close>

text \<open>
  Modelled from the spec: the observable operators that \<open>get\<close> composes
  (\<open>fromEvent\<close>, \<open>filter\<close>, \<open>pluck\<close>, \<open>startWith\<close>, \<open>empty\<close>, \<open>merge\<close>, \<open>takeUntil\<close>) belong to
  an external library and are not among the sources. An observable is the term that
  \<open>get\<close> builds. \<open>Changes i name\<close> is
  \<open>fromEvent(store, 'item-set').filter(matches({name: name})).pluck('value')\<close> on store
  \<open>i\<close>; the other constructors are \<open>startWith\<close>, \<open>empty\<close>, \<open>merge\<close> and \<open>takeUntil\<close> (the
  source first, the notifier second).
\<close>

datatype obs =
    Changes nat string
  | StartWith jsval obs
  | Empty
  | Merge obs obs
  | TakeUntil obs obs

text \<open>
  What \<open>get\<close> returns once the inherited observable is known: \<open>changes$\<close>, started with
  the local value when \<open>items.has(prop)\<close>, merged with the inherited one until \<open>changes$\<close>
  emits.
\<close>

definition get_result :: "nat \<Rightarrow> string \<Rightarrow> string \<Rightarrow> meta \<Rightarrow> obs \<Rightarrow> obs" where
  "get_result store name prop m inherit =
     (let value = Map_get (items m) prop;
          changes = Changes store name;
          changes = (if Map_has (items m) prop then StartWith value changes else changes)
      in Merge changes (TakeUntil inherit changes))"

text \<open>
  \<open>get\<close> calls itself on the parent; \<open>None\<close> when the chain of parents does not end.
  What the call on the parent throws, \<open>get\<close> throws (\<open>map_sum\<close> leaves an error as it
  is).
\<close>

partial_function (option) Store_get ::
  "state \<Rightarrow> ref \<Rightarrow> jsval \<Rightarrow> ((error + obs) \<times> state) option" where
  "Store_get s this name =
     (if throwIfInvalidName name then Some (Inl InvalidName, s)
      else case getPropData s this (the_string name) of
             (Inl e, s) \<Rightarrow> Some (Inl e, s)
           | (Inr (store, prop, m), s) \<Rightarrow>
               Option.bind
                 (case parent m of
                    None \<Rightarrow> Some (Inr Empty, s)
                  | Some p \<Rightarrow> Store_get s p (JStr prop))
                 (\<lambda>(inherit, s).
                    Some (map_sum id (get_result store (the_string name) prop m) inherit, s)))"

subsection \<open>Subscriptions\<close>

text \<open>
  A running subscription. Subscribing registers the listeners in the order of the
  constructors below (the arms of \<open>merge\<close> from left to right; for \<open>takeUntil\<close> the
  notifier before the source), and an emitted event runs the listeners of its store in
  that order. \<open>takeUntil\<close> ends as soon as its notifier emits, also when it does so while
  subscribing; \<open>merge\<close> ends when both arms have ended.
\<close>

datatype sub =
    SDone
  | SChanges nat string
  | SMerge sub sub
  | STakeUntil sub sub

fun mk_merge :: "sub \<Rightarrow> sub \<Rightarrow> sub" where
  "mk_merge SDone SDone = SDone"
| "mk_merge a b = SMerge a b"

fun mk_takeUntil :: "sub \<Rightarrow> sub \<Rightarrow> sub" where
  "mk_takeUntil SDone notifier = SDone"
| "mk_takeUntil source notifier = STakeUntil source notifier"

text \<open>\<open>subscribe\<close>: the values delivered while subscribing, and the subscription.\<close>

fun subscribe :: "obs \<Rightarrow> jsval list \<times> sub" where
  "subscribe (Changes i name) = ([], SChanges i name)"
| "subscribe (StartWith v source) = (v # fst (subscribe source), snd (subscribe source))"
| "subscribe Empty = ([], SDone)"
| "subscribe (Merge a b) =
     (fst (subscribe a) @ fst (subscribe b), mk_merge (snd (subscribe a)) (snd (subscribe b)))"
| "subscribe (TakeUntil source notifier) =
     (if fst (subscribe notifier) \<noteq> [] then ([], SDone)
      else (fst (subscribe source), mk_takeUntil (snd (subscribe source)) (snd (subscribe notifier))))"

text \<open>\<open>deliver\<close>: the values one emitted event delivers, and the subscription after it.\<close>

fun deliver :: "sub \<Rightarrow> nat \<times> event \<Rightarrow> jsval list \<times> sub" where
  "deliver SDone e = ([], SDone)"
| "deliver (SChanges i name) (j, ItemSet n v) =
     (if i = j \<and> n = name then [v] else [], SChanges i name)"
| "deliver (SChanges i name) (j, e) = ([], SChanges i name)"
| "deliver (SMerge a b) e =
     (fst (deliver a e) @ fst (deliver b e), mk_merge (snd (deliver a e)) (snd (deliver b e)))"
| "deliver (STakeUntil source notifier) e =
     (if fst (deliver notifier e) \<noteq> [] then ([], SDone)
      else (fst (deliver source e),
            mk_takeUntil (snd (deliver source e)) (snd (deliver notifier e))))"

text \<open>The values a subscription delivers over a sequence of emitted events.\<close>

fun observe :: "sub \<Rightarrow> (nat \<times> event) list \<Rightarrow> jsval list" where
  "observe k [] = []"
| "observe k (e # es) = fst (deliver k e) @ observe (snd (deliver k e)) es"

text \<open>
  What a subscriber of \<open>source\<close> has seen in state \<open>s'\<close> when it subscribed in state \<open>s\<close>:
  the values of the subscription itself, then those of the events emitted since.
\<close>

definition observed :: "obs \<Rightarrow> state \<Rightarrow> state \<Rightarrow> jsval list" where
  "observed source s s' =
     fst (subscribe source)
     @ observe (snd (subscribe source)) (drop (length (emitted s)) (emitted s'))"

section \<open>Calls through a reference\<close>

text \<open>
  \<open>r.method(...)\<close> for a reference \<open>r\<close>, a store or a proxy: the method that \<open>lookup\<close>
  finds, or \<open>readonlyMethod\<close>, which throws.
\<close>

definition call_for :: "state \<Rightarrow> ref \<Rightarrow> jsval \<Rightarrow> (error + ref) \<times> state" where
  "call_for s r name =
     (case lookup r M_for of
        None \<Rightarrow> (Inl ReadonlyError, s)
      | Some this \<Rightarrow> Store_for s this name)"

definition call_parent :: "state \<Rightarrow> ref \<Rightarrow> error + ref option" where
  "call_parent s r =
     (case lookup r M_parent of
        None \<Rightarrow> Inl ReadonlyError
      | Some this \<Rightarrow> Store_parent s this)"

definition call_root :: "state \<Rightarrow> ref \<Rightarrow> (error + ref) option" where
  "call_root s r =
     (case lookup r M_root of
        None \<Rightarrow> Some (Inl ReadonlyError)
      | Some this \<Rightarrow> Store_root s this)"

definition call_has :: "state \<Rightarrow> ref \<Rightarrow> jsval \<Rightarrow> error + bool" where
  "call_has s r name =
     (case lookup r M_has of
        None \<Rightarrow> Inl ReadonlyError
      | Some this \<Rightarrow> Store_has s this name)"

definition call_get :: "state \<Rightarrow> ref \<Rightarrow> jsval \<Rightarrow> ((error + obs) \<times> state) option" where
  "call_get s r name =
     (case lookup r M_get of
        None \<Rightarrow> Some (Inl ReadonlyError, s)
      | Some this \<Rightarrow> Store_get s this name)"

definition call_set :: "state \<Rightarrow> ref \<Rightarrow> jsval \<Rightarrow> jsval \<Rightarrow> (error + ref) \<times> state" where
  "call_set s r name value =
     (case lookup r M_set of
        None \<Rightarrow> (Inl ReadonlyError, s)
      | Some this \<Rightarrow> Store_set s this name value)"

definition call_delete :: "state \<Rightarrow> ref \<Rightarrow> jsval \<Rightarrow> (error + unit) \<times> state" where
  "call_delete s r name =
     (case lookup r M_delete of
        None \<Rightarrow> (Inl ReadonlyError, s)
      | Some this \<Rightarrow> Store_delete s this name)"

definition call_remove :: "state \<Rightarrow> ref \<Rightarrow> jsval \<Rightarrow> (error + unit) \<times> state" where
  "call_remove s r name =
     (case lookup r M_remove of
        None \<Rightarrow> (Inl ReadonlyError, s)
      | Some this \<Rightarrow> Store_delete s this name)"

definition call_clear :: "nat \<Rightarrow> state \<Rightarrow> ref \<Rightarrow> jsval \<Rightarrow> ((error + unit) \<times> state) option" where
  "call_clear n s r nested =
     (case lookup r M_clear of
        None \<Rightarrow> Some (Inl ReadonlyError, s)
      | Some this \<Rightarrow> Store_clear n s this nested)"

section \<open>Scenarios\<close>

text \<open>
  States to evaluate on: a root alone; a root with the child \<open>child\<close>; the same with
  \<open>key\<close> set on the root; the same with \<open>k\<close> set on the child.
\<close>

definition alone :: state where
  "alone = snd (Store empty_state NoAncestor)"

definition family :: state where
  "family = snd (call_for alone (Plain 0) (JStr ''child''))"

definition stocked :: state where
  "stocked = snd (call_set family (Plain 0) (JStr ''key'') (JNum 1))"

definition stocked_child :: state where
  "stocked_child = snd (call_set family (Plain 0) (JStr ''child/k'') (JNum 1))"

text \<open>A sequence of \<open>set\<close> calls, each through its own reference.\<close>

definition sets :: "state \<Rightarrow> (ref \<times> string \<times> jsval) list \<Rightarrow> state" where
  "sets s calls = fold (\<lambda>(r, name, v) s. snd (call_set s r (JStr name) v)) calls s"

text \<open>
  Three generations: a root holding \<open>r\<close>, its child \<open>child\<close> holding \<open>k\<close>, and the
  child's child \<open>grand\<close> holding \<open>g\<close>.
\<close>

definition dynasty :: state where
  "dynasty = sets alone [(Plain 0, ''r'', JNum 1), (Plain 0, ''child/k'', JNum 2),
                         (Plain 0, ''child/grand/g'', JNum 3)]"

text \<open>
  \<open>root = new Store(); child = root.for('child')\<close>, a subscriber of \<open>child.get('key')\<close>,
  then the seven \<open>set\<close> calls on \<open>root\<close> and \<open>child\<close> in turn: what the subscriber sees.
\<close>

definition interleaved ::
  "jsval \<Rightarrow> jsval \<Rightarrow> jsval \<Rightarrow> jsval \<Rightarrow> jsval \<Rightarrow> jsval \<Rightarrow> jsval \<Rightarrow> jsval list option" where
  "interleaved a b c d e f g =
     (case Store empty_state NoAncestor of
        (Inl err, s) \<Rightarrow> None
      | (Inr root, s) \<Rightarrow>
          (case call_for s root (JStr ''child'') of
             (Inl err, s) \<Rightarrow> None
           | (Inr child, s) \<Rightarrow>
               (case call_get s child (JStr ''key'') of
                  None \<Rightarrow> None
                | Some (Inl err, s) \<Rightarrow> None
                | Some (Inr source, s) \<Rightarrow>
                    Some (observed source s
                            (sets s [(root, ''key'', a), (root, ''key'', b), (root, ''key'', c),
                                     (child, ''key'', d), (root, ''key'', e), (root, ''key'', f),
                                     (child, ''key'', g)])))))"

text \<open>
  \<open>root = new Store()\<close>, a subscriber of \<open>root.get('child/key')\<close>, then
  \<open>root.set('child/key', v)\<close>: whether the child holds \<open>key\<close> afterwards, and what the
  subscriber has seen.
\<close>

definition path_subscriber :: "jsval \<Rightarrow> ((error + bool) \<times> jsval list) option" where
  "path_subscriber v =
     (case Store empty_state NoAncestor of
        (Inl err, s) \<Rightarrow> None
      | (Inr root, s) \<Rightarrow>
          (case call_get s root (JStr ''child/key'') of
             None \<Rightarrow> None
           | Some (Inl err, s) \<Rightarrow> None
           | Some (Inr source, s) \<Rightarrow>
               (case call_for s root (JStr ''child'') of
                  (Inl err, s') \<Rightarrow> None
                | (Inr child, s') \<Rightarrow>
                    (let s' = snd (call_set s' root (JStr ''child/key'') v)
                     in Some (call_has s' child (JStr ''key''), observed source s s')))))"


text \<open>\<open>root = new Store(); root.delete('key')\<close>: the events emitted.\<close>

definition delete_absent :: "(error + unit) \<times> (nat \<times> event) list" where
  "delete_absent =
     (case Store empty_state NoAncestor of
        (Inl err, s) \<Rightarrow> (Inl err, [])
      | (Inr root, s) \<Rightarrow>
          (case call_delete s root (JStr ''key'') of (r, s) \<Rightarrow> (r, emitted s)))"

text \<open>
  \<open>root = new Store(); root.set('child/k', v); root.clear(true)\<close>: the events that
  \<open>clear\<close> emits.
\<close>

definition clear_nested :: "jsval \<Rightarrow> (nat \<times> event) list option" where
  "clear_nested v =
     (case Store empty_state NoAncestor of
        (Inl err, s) \<Rightarrow> None
      | (Inr root, s) \<Rightarrow>
          (let s = snd (call_set s root (JStr ''child/k'') v) in
           case call_clear 2 s root (JBool True) of
             None \<Rightarrow> None
           | Some (r, s') \<Rightarrow> Some (drop (length (emitted s)) (emitted s'))))"

text \<open>\<open>new Store().for(name)\<close>: the result and the events emitted.\<close>

definition for_on_new_store :: "string \<Rightarrow> (error + ref) \<times> (nat \<times> event) list" where
  "for_on_new_store name =
     (case Store empty_state NoAncestor of
        (Inl err, s) \<Rightarrow> (Inl err, [])
      | (Inr root, s) \<Rightarrow>
          (case call_for s root (JStr name) of (r, s) \<Rightarrow> (r, emitted s)))"

section \<open>Invariants\<close>

text \<open>
  The state after \<open>getChildStore\<close> has created the child \<open>name\<close> of store \<open>i\<close>: the new
  store at the end of the heap, registered in \<open>children\<close> of \<open>i\<close>, and \<open>store-added\<close>
  emitted on \<open>i\<close>.
\<close>

definition added :: "state \<Rightarrow> nat \<Rightarrow> string \<Rightarrow> state" where
  "added s i name =
     \<lparr>heap = (heap s @ [\<lparr>children = [], parent = Some (Plain i), items = []\<rparr>])
               [i := (heap s ! i)\<lparr>children := children (heap s ! i) @ [(name, length (heap s))]\<rparr>],
      emitted = emitted s @ [(i, StoreAdded name (length (heap s)))]\<rparr>"

text \<open>
  What path resolution does to a state: it adds stores, registers children under names
  that had none, emits \<open>store-added\<close>, and leaves everything else as it was.
\<close>

definition grows :: "state \<Rightarrow> state \<Rightarrow> bool" where
  "grows s s' \<longleftrightarrow>
     length (heap s) \<le> length (heap s')
     \<and> (\<forall>j < length (heap s).
           items (heap s' ! j) = items (heap s ! j)
           \<and> parent (heap s' ! j) = parent (heap s ! j)
           \<and> (\<forall>n c. map_of (children (heap s ! j)) n = Some c
                  \<longrightarrow> map_of (children (heap s' ! j)) n = Some c))
     \<and> (\<exists>es. emitted s' = emitted s @ es \<and> (\<forall>e \<in> set es. \<exists>n c. snd e = StoreAdded n c))"

text \<open>
  The stores of a well-formed state are numbered in the order of their creation: a child
  is younger than the store that holds it, a parent that is a store is older, and every
  child is a store of the heap. The constructor and \<open>getChildStore\<close> build such states
  only.
\<close>

definition well_formed_meta :: "nat \<Rightarrow> nat \<Rightarrow> meta \<Rightarrow> bool" where
  "well_formed_meta len i m =
     (list_all (\<lambda>(name, c). i < c \<and> c < len) (children m)
      \<and> (case parent m of Some (Plain p) \<Rightarrow> p < i | _ \<Rightarrow> True))"

definition well_formed :: "state \<Rightarrow> bool" where
  "well_formed s = list_all (\<lambda>(i, m). well_formed_meta (length (heap s)) i m) (enumerate 0 (heap s))"

text \<open>\<open>clear\<close> changes items and emits events; the tree stays as it is.\<close>

definition same_shape :: "state \<Rightarrow> state \<Rightarrow> bool" where
  "same_shape s s' \<longleftrightarrow>
     map children (heap s') = map children (heap s) \<and> map parent (heap s') = map parent (heap s)"

text \<open>
  The sequence of events that the specification gives for \<open>clear\<close> on store \<open>i\<close>, with
  the store's own \<open>store-cleared\<close> moved to the end: one \<open>item-removed\<close> for each of
  the store's items, then, if \<open>nested\<close> is truthy, the full sequence of every child in
  turn, then the store's \<open>store-cleared\<close>. The first argument bounds the depth.
\<close>

fun spec_clear_sequence :: "nat \<Rightarrow> state \<Rightarrow> nat \<Rightarrow> jsval \<Rightarrow> (nat \<times> event) list" where
  "spec_clear_sequence 0 s i nested = []"
| "spec_clear_sequence (Suc n) s i nested =
     map (\<lambda>(k, v). (i, ItemRemoved k)) (items (heap s ! i))
     @ (if truthy nested
        then concat (map (\<lambda>c. spec_clear_sequence n s c (JBool True))
                       (forOwn (children (heap s ! i))))
        else [])
     @ [(i, StoreCleared)]"

text \<open>
  The stores form a forest: \<open>getChildStore\<close> registers a store it has just constructed
  with the current store as its ancestor, so no store is registered twice and the parent
  of a registered child is the store that holds it.
\<close>

definition owns :: "state \<Rightarrow> nat \<Rightarrow> (string \<times> nat) list \<Rightarrow> bool" where
  "owns s i cs =
     (distinct (map snd cs)
      \<and> list_all (\<lambda>(name, c). map_option parent (data_get s (Plain c)) = Some (Some (Plain i))) cs)"

definition owned :: "state \<Rightarrow> bool" where
  "owned s = list_all (\<lambda>(i, m). owns s i (children m)) (enumerate 0 (heap s))"

text \<open>\<open>below s x c\<close>: store \<open>x\<close> is \<open>c\<close> or one of its descendants.\<close>

inductive below :: "state \<Rightarrow> nat \<Rightarrow> nat \<Rightarrow> bool" where
  self: "below s c c"
| child: "c < length (heap s) \<Longrightarrow> (name, d) \<in> set (children (heap s ! c)) \<Longrightarrow> below s x d \<Longrightarrow>
          below s x c"

text \<open>
  What \<open>clear\<close> on store \<open>i\<close> achieves: the tree stays as it is, the events are the
  sequence above, and the stores emptied are \<open>i\<close> and, if \<open>nested\<close> is truthy, all its
  descendants; and the same for clearing a list of children.
\<close>

definition cleared_exactly :: "nat \<Rightarrow> state \<Rightarrow> nat \<Rightarrow> jsval \<Rightarrow> state \<Rightarrow> bool" where
  "cleared_exactly n s i nested s' \<longleftrightarrow>
     same_shape s s'
     \<and> emitted s' = emitted s @ spec_clear_sequence n s i nested
     \<and> (\<forall>j < length (heap s).
           items (heap s' ! j) =
             (if (if truthy nested then below s j i else j = i) then [] else items (heap s ! j)))"

definition children_cleared_exactly :: "nat \<Rightarrow> state \<Rightarrow> nat list \<Rightarrow> state \<Rightarrow> bool" where
  "children_cleared_exactly n s cs s' \<longleftrightarrow>
     same_shape s s'
     \<and> emitted s' = emitted s @ concat (map (\<lambda>c. spec_clear_sequence n s c (JBool True)) cs)
     \<and> (\<forall>j < length (heap s).
           items (heap s' ! j) = (if \<exists>c \<in> set cs. below s j c then [] else items (heap s ! j)))"

text \<open>The values of the \<open>item-set\<close> events for \<open>name\<close> on store \<open>i\<close>.\<close>

definition local_sets :: "nat \<Rightarrow> string \<Rightarrow> (nat \<times> event) list \<Rightarrow> jsval list" where
  "local_sets i name es = concat (map (\<lambda>e. fst (deliver (SChanges i name) e)) es)"

text \<open>
  The states a program reaches from the empty state by constructing stores (with no
  ancestor, or with a reference it holds) and by calling \<open>for\<close>, \<open>get\<close>, \<open>set\<close>,
  \<open>delete\<close>, \<open>remove\<close> and \<open>clear\<close>, whatever these return or throw.
\<close>

inductive reachable :: "state \<Rightarrow> bool" where
  start: "reachable empty_state"
| constructed:
    "reachable s \<Longrightarrow> (case a of AncestorRef (Plain p) \<Rightarrow> p < length (heap s) | _ \<Rightarrow> True) \<Longrightarrow>
     reachable (snd (Store s a))"
| resolved: "reachable s \<Longrightarrow> reachable (snd (call_for s r name))"
| read: "reachable s \<Longrightarrow> call_get s r name = Some (res, s') \<Longrightarrow> reachable s'"
| written: "reachable s \<Longrightarrow> reachable (snd (call_set s r name v))"
| deleted: "reachable s \<Longrightarrow> reachable (snd (call_delete s r name))"
| removed: "reachable s \<Longrightarrow> reachable (snd (call_remove s r name))"
| cleared: "reachable s \<Longrightarrow> call_clear n s r nested = Some (res', s') \<Longrightarrow> reachable s'"

section \<open>Code equations\<close>

text \<open>The two loops are evaluated by their recursive equations.\<close>

declare root_loop.simps [code]
declare Store_get.simps [code]

section \<open>Names and paths\<close>

lemma trim_Nil_iff: "trim str = [] \<longleftrightarrow> list_all (\<lambda>c. c \<in> set whitespace) str"
proof -
  let ?P = "\<lambda>c. c \<in> set whitespace"
  have "trim str = [] \<longleftrightarrow> (\<forall>c \<in> set (dropWhile ?P str). ?P c)"
    by (simp add: trim_def dropWhile_eq_Nil_conv)
  also have "\<dots> \<longleftrightarrow> dropWhile ?P str = []"
  proof
    assume a: "\<forall>c \<in> set (dropWhile ?P str). ?P c"
    show "dropWhile ?P str = []"
    proof (rule ccontr)
      assume n: "dropWhile ?P str \<noteq> []"
      then have "\<not> ?P (hd (dropWhile ?P str))" by (rule hd_dropWhile)
      moreover have "hd (dropWhile ?P str) \<in> set (dropWhile ?P str)" using n by simp
      ultimately show False using a by blast
    qed
  qed (auto dest: set_dropWhileD)
  also have "\<dots> \<longleftrightarrow> list_all ?P str"
    by (simp add: dropWhile_eq_Nil_conv list_all_iff)
  finally show ?thesis .
qed

lemma throwIfInvalidName_JStr [simp]: "throwIfInvalidName (JStr str) \<longleftrightarrow> trim str = []"
  by (simp add: throwIfInvalidName_def)

lemma throwIfInvalidName_JString [simp]: "throwIfInvalidName (JString str) \<longleftrightarrow> trim str = []"
  by (simp add: throwIfInvalidName_def)

lemma throwIfInvalidName_iff: "throwIfInvalidName name \<longleftrightarrow> spec_invalid_name name"
  by (cases name) (simp_all add: trim_Nil_iff throwIfInvalidName_def)

lemma split_not_Nil: "split str \<noteq> []"
  by (induction str) auto

lemma split_append: "split (a @ CHR ''/'' # b) = split a @ split b"
  by (induction a) (auto simp: split_not_Nil)

lemma split_bare: "CHR ''/'' \<notin> set k \<Longrightarrow> split k = [k]"
  by (induction k) auto

lemma split_segments: "\<forall>seg \<in> set (split str). CHR ''/'' \<notin> set seg"
proof (induction str)
  case Nil
  show ?case by simp
next
  case (Cons c cs)
  have "split cs \<noteq> []" by (rule split_not_Nil)
  then obtain w ws where "split cs = w # ws" by (cases "split cs") auto
  with Cons show ?case by auto
qed

lemma last_split_bare: "CHR ''/'' \<notin> set (last (split str))"
  using split_segments [of str] split_not_Nil [of str] by auto

lemma slash_not_whitespace: "CHR ''/'' \<notin> set whitespace"
  by (simp add: whitespace_def)

lemma valid_join: "\<not> throwIfInvalidName (JStr (a @ CHR ''/'' # b))"
  using slash_not_whitespace by (simp add: trim_Nil_iff)

section \<open>Readonly proxies\<close>

lemma lookup_bound [simp]:
  "lookup r M_for = Some (case r of Plain i \<Rightarrow> Plain i | Readonly i \<Rightarrow> Plain i)"
  "lookup r M_has = Some (case r of Plain i \<Rightarrow> Plain i | Readonly i \<Rightarrow> Plain i)"
  "lookup r M_parent = Some (case r of Plain i \<Rightarrow> Plain i | Readonly i \<Rightarrow> Plain i)"
  "lookup r M_root = Some (case r of Plain i \<Rightarrow> Plain i | Readonly i \<Rightarrow> Plain i)"
  by (cases r; simp add: readonlyMethods_def boundMethods_def)+

lemma lookup_inherited [simp]:
  "lookup r M_get = Some r" "lookup r M_remove = Some r"
  by (cases r; simp add: readonlyMethods_def boundMethods_def)+

lemma lookup_readonly [simp]:
  "lookup (Readonly i) M_set = None" "lookup (Readonly i) M_delete = None"
  "lookup (Readonly i) M_clear = None"
  by (simp_all add: readonlyMethods_def)

declare lookup.simps [simp del]

lemma lookup_Plain [simp]: "lookup (Plain i) m = Some (Plain i)"
  by (simp add: lookup.simps)

lemma readonly_is_Readonly: "\<exists>j. readonly r = Readonly j"
  by (cases r) simp_all

lemma root_loop_readonly:
  "root_loop s current ancestor = Some y \<Longrightarrow> \<forall>view. y = Inr view \<longrightarrow> (\<exists>j. view = Readonly j)"
proof (induction rule: root_loop.raw_induct [rotated 1, consumes 1])
  case (1 root_loop s current ancestor y)
  then show ?case
    using readonly_is_Readonly by (auto split: option.splits)
qed

lemma view_of_parent:
  "call_parent s r = Inr (Some view) \<Longrightarrow> \<exists>j. view = Readonly j"
  using readonly_is_Readonly
  by (auto simp: call_parent_def Store_parent_def split: option.splits)

lemma view_of_root:
  "call_root s r = Some (Inr view) \<Longrightarrow> \<exists>j. view = Readonly j"
  by (auto simp: call_root_def Store_root_def split: option.splits dest: root_loop_readonly)

text \<open>
  C9. A view that \<open>parent()\<close> or \<open>root()\<close> returned throws the readonly error on \<open>set\<close>,
  \<open>delete\<close> and \<open>clear\<close>, in every state and for all arguments, valid names or not, and
  leaves the state as it is: no item changes, no event is emitted.
\<close>

theorem readonly_view_rejects:
  assumes "call_parent s r = Inr (Some view) \<or> call_root s r = Some (Inr view)"
  shows "call_set s' view name v = (Inl ReadonlyError, s')
         \<and> call_delete s' view name = (Inl ReadonlyError, s')
         \<and> call_clear n s' view nested = Some (Inl ReadonlyError, s')"
proof -
  from assms obtain j where "view = Readonly j"
    using view_of_parent view_of_root by blast
  then show ?thesis
    by (simp add: call_set_def call_delete_def call_clear_def)
qed

theorem readonly_view_rejects_witness:
  "call_parent family (Plain 1) = Inr (Some (Readonly 0))
   \<and> call_root family (Plain 1) = Some (Inr (Readonly 0))
   \<and> call_set stocked (Readonly 0) (JStr ''key'') (JNum 2) = (Inl ReadonlyError, stocked)
   \<and> call_delete stocked (Readonly 0) (JStr ''key'') = (Inl ReadonlyError, stocked)
   \<and> call_clear 2 stocked (Readonly 0) (JBool True) = Some (Inl ReadonlyError, stocked)"
proof -
  have p: "call_parent family (Plain 1) = Inr (Some (Readonly 0))" by code_simp
  have r: "call_root family (Plain 1) = Some (Inr (Readonly 0))" by code_simp
  from p have "call_parent family (Plain 1) = Inr (Some (Readonly 0))
               \<or> call_root family (Plain 1) = Some (Inr (Readonly 0))" ..
  from readonly_view_rejects [OF this, of stocked "JStr ''key''" "JNum 2" 2 "JBool True"] p r
  show ?thesis by (intro conjI) simp_all
qed

text \<open>
  C8. A name that is not a string, or is empty or white space only, makes \<open>for\<close>, \<open>has\<close>,
  \<open>get\<close> and \<open>remove\<close> through any reference, and \<open>set\<close> and \<open>delete\<close> on a store, throw
  the invalid-name error with the state untouched: nothing is traversed, created, changed
  or emitted. (\<open>set\<close> and \<open>delete\<close> of a readonly proxy throw the readonly error first.)
  A string is a primitive string or a String object, as \<open>isString\<close> has it.
\<close>

theorem invalid_name_throws:
  assumes "spec_invalid_name name"
  shows "call_for s r name = (Inl InvalidName, s)
         \<and> call_has s r name = Inl InvalidName
         \<and> call_get s r name = Some (Inl InvalidName, s)
         \<and> call_remove s r name = (Inl InvalidName, s)
         \<and> call_set s (Plain i) name v = (Inl InvalidName, s)
         \<and> call_delete s (Plain i) name = (Inl InvalidName, s)"
  using assms
  by (simp add: throwIfInvalidName_iff [symmetric] call_for_def call_has_def call_get_def
        call_remove_def call_set_def call_delete_def Store_for_def Store_has_def
        Store_get.simps Store_set_def Store_delete_def)

theorem invalid_name_throws_witness:
  "spec_invalid_name (JStr '' '')
   \<and> call_for family (Readonly 0) (JStr '' '') = (Inl InvalidName, family)
   \<and> call_has family (Readonly 0) (JStr '' '') = Inl InvalidName
   \<and> call_get family (Readonly 0) (JStr '' '') = Some (Inl InvalidName, family)
   \<and> call_remove family (Readonly 0) (JStr '' '') = (Inl InvalidName, family)
   \<and> call_set family (Plain 1) (JStr '' '') (JNum 1) = (Inl InvalidName, family)
   \<and> call_delete family (Plain 1) (JStr '' '') = (Inl InvalidName, family)"
proof -
  have h: "spec_invalid_name (JStr '' '')" by (simp add: whitespace_def)
  from h invalid_name_throws [OF h, of family "Readonly 0" 1 "JNum 1"] show ?thesis
    by (rule conjI)
qed

text \<open>
  A String object that is not empty or white space only is a valid name: \<open>for\<close>, \<open>get\<close>,
  \<open>set\<close>, \<open>delete\<close> and \<open>remove\<close> treat it as the primitive string of the same characters,
  and \<open>has\<close> returns false, since no key of the map is that object.
\<close>

lemma Store_String_object:
  "Store_for s r (JString k) = Store_for s r (JStr k)"
  "Store_get s r (JString k) = Store_get s r (JStr k)"
  "Store_set s r (JString k) v = Store_set s r (JStr k) v"
  "Store_delete s r (JString k) = Store_delete s r (JStr k)"
  by (simp_all add: Store_for_def Store_set_def Store_delete_def
        Store_get.simps [of _ _ "JString k"] Store_get.simps [of _ _ "JStr k"]
        split: prod.splits sum.splits)

lemma String_object_names:
  "call_for s r (JString k) = call_for s r (JStr k)"
  "call_get s r (JString k) = call_get s r (JStr k)"
  "call_set s r (JString k) v = call_set s r (JStr k) v"
  "call_delete s r (JString k) = call_delete s r (JStr k)"
  "call_remove s r (JString k) = call_remove s r (JStr k)"
  by (simp_all add: call_for_def call_get_def call_set_def call_delete_def call_remove_def
        Store_String_object cong: option.case_cong)

lemma String_object_has:
  "trim k \<noteq> [] \<Longrightarrow> i < length (heap s) \<Longrightarrow> call_has s (Plain i) (JString k) = Inr False"
  by (simp add: call_has_def Store_has_def data_get_def)

section \<open>Path resolution\<close>

lemma child_of_AStore: "child_of cs n = AStore c \<longleftrightarrow> map_of cs n = Some c"
  by (auto simp: child_of_def split: option.splits)

lemma child_of_Undefined: "child_of cs n = Undefined \<Longrightarrow> map_of cs n = None"
  by (auto simp: child_of_def split: option.splits if_splits)

lemma descend_Plain:
  "descend s (Plain i) name =
     (if i < length (heap s) then
        (case child_of (children (heap s ! i)) name of
           AStore c \<Rightarrow> (Inr (Plain c), s)
         | Inherited \<Rightarrow> (Inl PathError, s)
         | Undefined \<Rightarrow>
             if Map_has (items (heap s ! i)) name then (Inl PathError, s)
             else (Inr (Plain (length (heap s))), added s i name))
      else (Inl TypeError, s))"
  by (auto simp: descend_def data_get_def added_def set_children_def emit_def nth_append Let_def
           split: property.splits)

lemma descend_Readonly: "descend s (Readonly i) name = (Inl TypeError, s)"
  by (simp add: descend_def)

lemma getChildStore_append:
  "getChildStore s base (xs @ ys) =
     (case getChildStore s base xs of
        (Inl e, s') \<Rightarrow> (Inl e, s')
      | (Inr c, s') \<Rightarrow> getChildStore s' c ys)"
  by (induction xs arbitrary: s base) (auto split: prod.splits sum.splits)

lemma grows_refl: "grows s s"
  by (simp add: grows_def)

lemma grows_trans: "grows s s' \<Longrightarrow> grows s' s'' \<Longrightarrow> grows s s''"
  unfolding grows_def
  apply (elim conjE exE)
  apply (intro conjI)
    apply simp
   apply (metis (no_types, lifting) less_le_trans)
  subgoal for es es'
    by (rule exI [of _ "es @ es'"]) auto
  done

lemma grows_added:
  assumes "i < length (heap s)" "map_of (children (heap s ! i)) name = None"
  shows "grows s (added s i name)"
  using assms by (auto simp: grows_def added_def nth_list_update nth_append)

lemma descend_cases:
  assumes "descend s r name = (res, s')"
  shows "(s' = s \<and> (\<forall>c. res = Inr c \<longrightarrow> (\<exists>i c'. r = Plain i \<and> i < length (heap s) \<and> c = Plain c'
                        \<and> map_of (children (heap s ! i)) name = Some c')))
         \<or> (\<exists>i. r = Plain i \<and> i < length (heap s)
                \<and> child_of (children (heap s ! i)) name = Undefined
                \<and> \<not> Map_has (items (heap s ! i)) name
                \<and> s' = added s i name \<and> res = Inr (Plain (length (heap s))))"
proof (cases r)
  case (Readonly p)
  with assms show ?thesis by (auto simp: descend_Readonly)
next
  case (Plain i)
  with assms show ?thesis
    by (auto simp: descend_Plain child_of_AStore split: if_splits property.splits)
qed

lemma descend_grows: "descend s r name = (res, s') \<Longrightarrow> grows s s'"
  using descend_cases [of s r name res s']
  by (auto simp: grows_refl intro!: grows_added dest: child_of_Undefined)

lemma getChildStore_grows: "getChildStore s r names = (res, s') \<Longrightarrow> grows s s'"
proof (induction names arbitrary: s r)
  case Nil
  then show ?case by (simp add: grows_refl)
next
  case (Cons n ns)
  obtain x s1 where d: "descend s r n = (x, s1)" by (cases "descend s r n")
  show ?case
  proof (cases x)
    case (Inl e)
    with Cons.prems d show ?thesis by (auto dest: descend_grows)
  next
    case (Inr c)
    with Cons.prems d have "getChildStore s1 c ns = (res, s')" by simp
    then have "grows s1 s'" by (rule Cons.IH)
    with descend_grows [OF d] show ?thesis by (rule grows_trans)
  qed
qed

lemma descend_registered:
  assumes "descend s r name = (Inr c, s')"
  shows "\<exists>i c'. r = Plain i \<and> i < length (heap s') \<and> c = Plain c'
           \<and> map_of (children (heap s' ! i)) name = Some c'"
  using descend_cases [OF assms]
  by (auto simp: added_def map_add_def dest: child_of_Undefined)

lemma descend_existing:
  assumes "i < length (heap s)" "map_of (children (heap s ! i)) name = Some c"
  shows "descend s (Plain i) name = (Inr (Plain c), s)"
  using assms by (simp add: descend_Plain child_of_def)

lemma getChildStore_idem:
  "getChildStore s r names = (Inr c, s') \<Longrightarrow> getChildStore s' r names = (Inr c, s')"
proof (induction names arbitrary: s r)
  case Nil
  then show ?case by simp
next
  case (Cons n ns)
  obtain x s1 where d: "descend s r n = (x, s1)" by (cases "descend s r n")
  with Cons.prems obtain y where x: "x = Inr y" and rest: "getChildStore s1 y ns = (Inr c, s')"
    by (cases x) auto
  from descend_registered [OF d [unfolded x]] obtain i c' where
    r: "r = Plain i" and i: "i < length (heap s1)" and y: "y = Plain c'"
    and reg: "map_of (children (heap s1 ! i)) n = Some c'" by blast
  from getChildStore_grows [OF rest] have g: "grows s1 s'" .
  from g i have i': "i < length (heap s')" by (simp add: grows_def)
  from g i reg have reg': "map_of (children (heap s' ! i)) n = Some c'" by (simp add: grows_def)
  have "descend s' r n = (Inr y, s')"
    unfolding r y using i' reg' by (rule descend_existing)
  moreover from rest have "getChildStore s' y ns = (Inr c, s')" by (rule Cons.IH)
  ultimately show ?case by simp
qed

lemma getChildStore_Plain:
  assumes "getChildStore s r names = (Inr x, s')" "names \<noteq> []"
  shows "\<exists>c. x = Plain c"
proof -
  from assms(2) obtain ns n where names: "names = ns @ [n]"
    by (cases names rule: rev_cases) auto
  obtain y s1 where "getChildStore s r ns = (y, s1)" by (cases "getChildStore s r ns")
  with assms(1) names obtain z where "descend s1 z n = (Inr x, s')"
    by (auto simp: getChildStore_append split: sum.splits prod.splits)
  then show ?thesis by (auto dest: descend_registered)
qed

text \<open>
  One segment, on a store of the heap: an existing child is entered; a name with no
  child, no item and no property of \<open>Object.prototype\<close> gets a new child, registered and
  announced on the current store; any other name throws.
\<close>

lemma descend_three_cases:
  assumes "i < length (heap s)"
  shows "(map_of (children (heap s ! i)) name = Some c \<longrightarrow>
            descend s (Plain i) name = (Inr (Plain c), s))
       \<and> (map_of (children (heap s ! i)) name = None \<and> name \<notin> set objectPrototype
            \<and> \<not> Map_has (items (heap s ! i)) name \<longrightarrow>
            descend s (Plain i) name = (Inr (Plain (length (heap s))), added s i name))
       \<and> (map_of (children (heap s ! i)) name = None
            \<and> (name \<in> set objectPrototype \<or> Map_has (items (heap s ! i)) name) \<longrightarrow>
            descend s (Plain i) name = (Inl PathError, s))"
  using assms by (auto simp: descend_Plain child_of_def)

text \<open>
  C6. For a segment that \<open>Object.prototype\<close> defines, with no child and no item of that
  name, no child is created and no \<open>store-added\<close> is emitted: the path fails.
\<close>

theorem for_constructor_fails:
  "for_on_new_store ''constructor'' = (Inl PathError, [])"
  by code_simp

lemma Store_for_idem:
  "Store_for s r p = (Inr c, s') \<Longrightarrow> Store_for s' r p = (Inr c, s')"
  by (auto simp: Store_for_def split: if_splits intro: getChildStore_idem)

lemma Store_for_Plain:
  "Store_for s r p = (Inr x, s') \<Longrightarrow> \<exists>c. x = Plain c"
  by (auto simp: Store_for_def split_not_Nil split: if_splits dest: getChildStore_Plain)

lemma Store_for_join:
  assumes "\<not> throwIfInvalidName (JStr a)" "\<not> throwIfInvalidName (JStr b)"
  shows "Store_for s r (JStr (a @ CHR ''/'' # b)) =
           (case Store_for s r (JStr a) of
              (Inl e, s1) \<Rightarrow> (Inl e, s1)
            | (Inr x, s1) \<Rightarrow> Store_for s1 x (JStr b))"
  using assms valid_join [of a b]
  by (auto simp: Store_for_def split_append getChildStore_append split: prod.splits sum.splits)

text \<open>
  C7. Resolving a path again returns the same store and leaves the state as the first
  resolution left it, so no second child is created; and for valid names \<open>a\<close> and \<open>b\<close>,
  \<open>for(a).for(b)\<close> is \<open>for(a/b)\<close>: the same result and the same state.
\<close>

theorem for_idempotent:
  "(call_for s r p = (Inr c, s') \<longrightarrow> call_for s' r p = (Inr c, s'))
   \<and> (\<not> throwIfInvalidName (JStr a) \<and> \<not> throwIfInvalidName (JStr b) \<longrightarrow>
        call_for s r (JStr (a @ ''/'' @ b)) =
          (case call_for s r (JStr a) of
             (Inl e, s1) \<Rightarrow> (Inl e, s1)
           | (Inr x, s1) \<Rightarrow> call_for s1 x (JStr b)))"
proof (intro conjI impI)
  assume "call_for s r p = (Inr c, s')"
  then show "call_for s' r p = (Inr c, s')"
    by (simp add: call_for_def Store_for_idem)
next
  let ?t = "case r of Plain i \<Rightarrow> Plain i | Readonly i \<Rightarrow> Plain i"
  assume v: "\<not> throwIfInvalidName (JStr a) \<and> \<not> throwIfInvalidName (JStr b)"
  obtain y s1 where f: "Store_for s ?t (JStr a) = (y, s1)"
    by (cases "Store_for s ?t (JStr a)")
  show "call_for s r (JStr (a @ ''/'' @ b)) =
          (case call_for s r (JStr a) of
             (Inl e, s1) \<Rightarrow> (Inl e, s1)
           | (Inr x, s1) \<Rightarrow> call_for s1 x (JStr b))"
  proof (cases y)
    case (Inl e)
    with v f show ?thesis by (simp add: call_for_def Store_for_join)
  next
    case (Inr x)
    with f obtain c where "x = Plain c" by (auto dest: Store_for_Plain)
    with v f Inr show ?thesis by (simp add: call_for_def Store_for_join)
  qed
qed

theorem for_idempotent_witness:
  "call_for alone (Plain 0) (JStr ''a/b'')
     = (Inr (Plain 2), snd (call_for alone (Plain 0) (JStr ''a/b'')))
   \<and> call_for (snd (call_for alone (Plain 0) (JStr ''a/b''))) (Plain 0) (JStr ''a/b'')
     = (Inr (Plain 2), snd (call_for alone (Plain 0) (JStr ''a/b'')))
   \<and> \<not> throwIfInvalidName (JStr ''a'') \<and> \<not> throwIfInvalidName (JStr ''b'')
   \<and> call_for alone (Plain 0) (JStr (''a'' @ ''/'' @ ''b''))
     = (case call_for alone (Plain 0) (JStr ''a'') of
          (Inl e, s1) \<Rightarrow> (Inl e, s1)
        | (Inr x, s1) \<Rightarrow> call_for s1 x (JStr ''b''))"
proof -
  let ?after = "snd (call_for alone (Plain 0) (JStr ''a/b''))"
  have h: "call_for alone (Plain 0) (JStr ''a/b'') = (Inr (Plain 2), ?after)" by code_simp
  have v: "\<not> throwIfInvalidName (JStr ''a'') \<and> \<not> throwIfInvalidName (JStr ''b'')"
    by code_simp
  from for_idempotent [of alone "Plain 0" "JStr ''a/b''" "Plain 2" ?after "''a''" "''b''"] h v
  show ?thesis by blast
qed

section \<open>Well-formed states\<close>

lemma heap_emit [simp]: "heap (emit i e s) = heap s"
  by (simp add: emit_def)

lemma emitted_emit [simp]: "emitted (emit i e s) = emitted s @ [(i, e)]"
  by (simp add: emit_def)

lemma heap_set_items [simp]:
  "heap (set_items i its s) = (heap s)[i := (heap s ! i)\<lparr>items := its\<rparr>]"
  by (simp add: set_items_def)

lemma emitted_set_items [simp]: "emitted (set_items i its s) = emitted s"
  by (simp add: set_items_def)

lemma wf_iff: "well_formed s \<longleftrightarrow> (\<forall>i < length (heap s). well_formed_meta (length (heap s)) i (heap s ! i))"
  by (simp add: well_formed_def list_all_length nth_enumerate_eq)

lemma wf_child:
  assumes "well_formed s" "i < length (heap s)" "map_of (children (heap s ! i)) name = Some c"
  shows "i < c \<and> c < length (heap s)"
proof -
  from assms(3) have "(name, c) \<in> set (children (heap s ! i))" by (rule map_of_SomeD)
  with assms(1,2) show ?thesis by (auto simp: wf_iff well_formed_meta_def list_all_iff)
qed

lemma wf_parent:
  assumes "well_formed s" "i < length (heap s)" "parent (heap s ! i) = Some (Plain p)"
  shows "p < i"
  using assms by (auto simp: wf_iff well_formed_meta_def)

lemma wf_empty: "well_formed empty_state"
  by (simp add: well_formed_def empty_state_def)

lemma wf_meta_mono: "well_formed_meta len i m \<Longrightarrow> len \<le> len' \<Longrightarrow> well_formed_meta len' i m"
  by (auto simp: well_formed_meta_def list_all_iff)

lemma wf_added:
  assumes "well_formed s" "i < length (heap s)"
  shows "well_formed (added s i name)"
  unfolding wf_iff
proof (intro allI impI)
  fix j assume j: "j < length (heap (added s i name))"
  let ?len = "length (heap (added s i name))"
  have len: "?len = Suc (length (heap s))" by (simp add: added_def)
  consider "j = length (heap s)" | "j = i" | "j < length (heap s)" "j \<noteq> i"
    using j len by linarith
  then show "well_formed_meta ?len j (heap (added s i name) ! j)"
  proof cases
    case 1
    with assms(2) show ?thesis by (simp add: added_def well_formed_meta_def nth_append)
  next
    case 2
    from assms have "well_formed_meta (length (heap s)) i (heap s ! i)" by (simp add: wf_iff)
    with 2 assms(2) show ?thesis
      by (auto simp: added_def well_formed_meta_def nth_append list_all_iff)
  next
    case 3
    from assms(1) 3 have "well_formed_meta (length (heap s)) j (heap s ! j)" by (simp add: wf_iff)
    then have "well_formed_meta ?len j (heap s ! j)" by (rule wf_meta_mono) (simp add: len)
    with 3 show ?thesis by (simp add: added_def nth_append)
  qed
qed

lemma descend_wf: "descend s r name = (res, s') \<Longrightarrow> well_formed s \<Longrightarrow> well_formed s'"
  using descend_cases [of s r name res s'] by (auto intro: wf_added)

lemma getChildStore_wf: "getChildStore s r names = (res, s') \<Longrightarrow> well_formed s \<Longrightarrow> well_formed s'"
proof (induction names arbitrary: s r)
  case Nil
  then show ?case by simp
next
  case (Cons n ns)
  obtain x s1 where d: "descend s r n = (x, s1)" by (cases "descend s r n")
  with Cons.prems(2) have w: "well_formed s1" by (auto dest: descend_wf)
  show ?case
  proof (cases x)
    case (Inl e)
    with Cons.prems d w show ?thesis by auto
  next
    case (Inr c)
    with Cons.prems d have "getChildStore s1 c ns = (res, s')" by simp
    then show ?thesis using w by (rule Cons.IH)
  qed
qed

lemma descend_in_heap:
  assumes "descend s r name = (Inr c, s')" "well_formed s"
  shows "\<exists>j. c = Plain j \<and> j < length (heap s')"
proof -
  from descend_registered [OF assms(1)] obtain i c' where
    "i < length (heap s')" "c = Plain c'" "map_of (children (heap s' ! i)) name = Some c'"
    by blast
  moreover from assms have "well_formed s'" by (rule descend_wf)
  ultimately show ?thesis using wf_child by blast
qed

lemma getChildStore_in_heap:
  assumes "getChildStore s r names = (Inr c, s')" "well_formed s" "names \<noteq> [] \<or> (\<exists>i. r = Plain i \<and> i < length (heap s))"
  shows "\<exists>j. c = Plain j \<and> j < length (heap s')"
  using assms
proof (induction names arbitrary: s r)
  case Nil
  then show ?case by auto
next
  case (Cons n ns)
  obtain x s1 where d: "descend s r n = (x, s1)" by (cases "descend s r n")
  with Cons.prems(1) obtain y where x: "x = Inr y" and rest: "getChildStore s1 y ns = (Inr c, s')"
    by (cases x) auto
  from d x Cons.prems(2) have "\<exists>j. y = Plain j \<and> j < length (heap s1)"
    by (auto intro: descend_in_heap)
  moreover from d Cons.prems(2) have "well_formed s1" by (rule descend_wf)
  ultimately show ?case using rest Cons.IH by blast
qed

lemma getPropData_bare:
  assumes "CHR ''/'' \<notin> set k"
  shows "getPropData s (Plain j) k =
           (if j < length (heap s) then (Inr (j, k, heap s ! j), s) else (Inl TypeError, s))"
  using assms by (simp add: getPropData_def split_bare data_get_def)

lemma getPropData_bare_Readonly:
  "CHR ''/'' \<notin> set k \<Longrightarrow> getPropData s (Readonly j) k = (Inl TypeError, s)"
  by (simp add: getPropData_def split_bare)

lemma getPropData_store:
  "getPropData s r name = (Inr (store, prop, m), s') \<Longrightarrow>
   store < length (heap s') \<and> m = heap s' ! store \<and> prop = last (split name)"
  by (auto simp: getPropData_def data_get_def Let_def
           split: prod.splits sum.splits ref.splits if_splits)

lemma getPropData_wf: "getPropData s r name = (res, s') \<Longrightarrow> well_formed s \<Longrightarrow> well_formed s'"
  by (auto simp: getPropData_def Let_def split: prod.splits sum.splits ref.splits option.splits
           dest: getChildStore_wf)

lemma same_shape_refl: "same_shape s s"
  by (simp add: same_shape_def)

lemma same_shape_trans: "same_shape s s' \<Longrightarrow> same_shape s' s'' \<Longrightarrow> same_shape s s''"
  by (simp add: same_shape_def)

lemma same_shape_length: "same_shape s s' \<Longrightarrow> length (heap s') = length (heap s)"
  unfolding same_shape_def by (metis length_map)

lemma same_shape_nth:
  assumes "same_shape s s'" "j < length (heap s)"
  shows "children (heap s' ! j) = children (heap s ! j)" "parent (heap s' ! j) = parent (heap s ! j)"
proof -
  from assms have j': "j < length (heap s')" by (simp add: same_shape_length)
  from assms(1) have "map children (heap s') ! j = map children (heap s) ! j"
    and "map parent (heap s') ! j = map parent (heap s) ! j"
    by (simp_all add: same_shape_def)
  with assms(2) j' show "children (heap s' ! j) = children (heap s ! j)"
    and "parent (heap s' ! j) = parent (heap s ! j)" by simp_all
qed

lemma wf_same_shape: "same_shape s s' \<Longrightarrow> well_formed s \<Longrightarrow> well_formed s'"
  by (simp add: wf_iff well_formed_meta_def same_shape_length same_shape_nth)

lemma same_shape_items:
  "i < length (heap s) \<Longrightarrow> heap s' = (heap s)[i := (heap s ! i)\<lparr>items := its\<rparr>] \<Longrightarrow> same_shape s s'"
  by (simp add: same_shape_def map_update list_update_same_conv)

lemma same_shape_emit: "same_shape s s' \<Longrightarrow> same_shape s (emit i e s')"
  by (simp add: same_shape_def)

lemma wf_snoc:
  assumes "well_formed s" "heap s' = heap s @ [m]" "well_formed_meta (Suc (length (heap s))) (length (heap s)) m"
  shows "well_formed s'"
  unfolding wf_iff
proof (intro allI impI)
  fix i assume "i < length (heap s')"
  with assms(2) consider "i < length (heap s)" | "i = length (heap s)" by fastforce
  then show "well_formed_meta (length (heap s')) i (heap s' ! i)"
  proof cases
    case 1
    with assms(1) have "well_formed_meta (length (heap s)) i (heap s ! i)" by (simp add: wf_iff)
    then have "well_formed_meta (length (heap s')) i (heap s ! i)"
      by (rule wf_meta_mono) (simp add: assms(2))
    with 1 show ?thesis by (simp add: assms(2) nth_append)
  next
    case 2
    with assms(3) show ?thesis by (simp add: assms(2))
  qed
qed

lemma wf_Store:
  assumes "well_formed s" "Store s a = (res, s')" "\<forall>p. a = AncestorRef (Plain p) \<longrightarrow> p < length (heap s)"
  shows "well_formed s'"
proof (cases a)
  case NoAncestor
  with assms(2) have "heap s' = heap s @ [\<lparr>children = [], parent = None, items = []\<rparr>]" by auto
  with assms(1) show ?thesis by (rule wf_snoc) (simp add: well_formed_meta_def)
next
  case (AncestorRef r)
  with assms(2) have "heap s' = heap s @ [\<lparr>children = [], parent = Some r, items = []\<rparr>]" by auto
  with assms(1) show ?thesis
  proof (rule wf_snoc)
    show "well_formed_meta (Suc (length (heap s))) (length (heap s))
            \<lparr>children = [], parent = Some r, items = []\<rparr>"
      using assms(3) AncestorRef by (cases r) (simp_all add: well_formed_meta_def)
  qed
next
  case (AncestorOther v)
  with assms show ?thesis by simp
qed

lemma wf_call_for: "well_formed s \<Longrightarrow> call_for s r name = (res, s') \<Longrightarrow> well_formed s'"
  by (auto simp: call_for_def Store_for_def split: if_splits dest: getChildStore_wf)

lemma wf_set_items: "well_formed s \<Longrightarrow> i < length (heap s) \<Longrightarrow> well_formed (emit i e (set_items i its s))"
  by (rule wf_same_shape [OF same_shape_emit [OF same_shape_items]]) simp_all

lemma wf_Store_set:
  assumes "well_formed s" "Store_set s r name v = (res, s')"
  shows "well_formed s'"
proof (cases "throwIfInvalidName name")
  case True
  with assms show ?thesis by (simp add: Store_set_def)
next
  case False
  obtain x s1 where g: "getPropData s r (the_string name) = (x, s1)"
    by (cases "getPropData s r (the_string name)")
  from g assms(1) have w1: "well_formed s1" by (rule getPropData_wf)
  show ?thesis
  proof (cases x)
    case (Inl e)
    with assms(2) False g w1 show ?thesis by (simp add: Store_set_def)
  next
    case (Inr t)
    obtain store key m where t: "t = (store, key, m)" by (cases t)
    from g Inr t have "store < length (heap s1)" by (auto dest: getPropData_store)
    with w1 have "well_formed (emit store (ItemSet key v) (set_items store (AList.update key v (items m)) s1))"
      by (rule wf_set_items)
    with assms(2) False g Inr t show ?thesis by (auto simp: Store_set_def)
  qed
qed

section \<open>Writing and removing\<close>

lemma Store_set_bare:
  assumes "\<not> throwIfInvalidName (JStr k)" "CHR ''/'' \<notin> set k" "j < length (heap s)"
  shows "Store_set s (Plain j) (JStr k) v =
           (Inr (Plain j),
            emit j (ItemSet k v) (set_items j (AList.update k v (items (heap s ! j))) s))"
  using assms by (simp add: Store_set_def getPropData_bare)

lemma Store_delete_bare:
  assumes "\<not> throwIfInvalidName (JStr k)" "CHR ''/'' \<notin> set k" "j < length (heap s)"
  shows "Store_delete s (Plain j) (JStr k) =
           (Inr (),
            emit j (ItemRemoved k) (set_items j (AList.delete k (items (heap s ! j))) s))"
  using assms by (simp add: Store_delete_def getPropData_bare)

lemma remove_each_heap:
  "i < length (heap s) \<Longrightarrow>
   heap (remove_each i its s) =
     (heap s)[i := (heap s ! i)\<lparr>items := filter (\<lambda>p. fst p \<notin> fst ` set its) (items (heap s ! i))\<rparr>]"
proof (induction its arbitrary: s)
  case Nil
  then show ?case by (simp add: remove_each_def list_update_same_conv)
next
  case (Cons a its)
  obtain k v where a: "a = (k, v)" by (cases a)
  let ?s = "emit i (ItemRemoved k) (set_items i (AList.delete k (items (heap s ! i))) s)"
  have step: "remove_each i (a # its) s = remove_each i its ?s"
    by (simp add: remove_each_def a)
  have len: "i < length (heap ?s)" using Cons.prems by simp
  have "filter (\<lambda>p. fst p \<notin> fst ` set its) (AList.delete k (items (heap s ! i)))
        = filter (\<lambda>p. fst p \<notin> fst ` set (a # its)) (items (heap s ! i))"
    by (auto simp: a AList.delete_eq intro!: filter_cong)
  with Cons.IH [OF len] Cons.prems show ?case
    by (simp add: step)
qed

lemma remove_each_emitted:
  "emitted (remove_each i its s) = emitted s @ map (\<lambda>(k, v). (i, ItemRemoved k)) its"
proof (induction its arbitrary: s)
  case Nil
  then show ?case by (simp add: remove_each_def)
next
  case (Cons a its)
  obtain k v where a: "a = (k, v)" by (cases a)
  let ?s = "emit i (ItemRemoved k) (set_items i (AList.delete k (items (heap s ! i))) s)"
  have step: "remove_each i (a # its) s = remove_each i its ?s"
    by (simp add: remove_each_def a)
  show ?case unfolding step Cons.IH by (simp add: a)
qed

lemma remove_each_all:
  assumes "i < length (heap s)"
  shows "heap (remove_each i (items (heap s ! i)) s) = (heap s)[i := (heap s ! i)\<lparr>items := []\<rparr>]"
proof -
  have "filter (\<lambda>p. fst p \<notin> fst ` set (items (heap s ! i))) (items (heap s ! i)) = []"
    by (auto simp: filter_empty_conv)
  with remove_each_heap [OF assms, of "items (heap s ! i)"] show ?thesis by simp
qed

lemma Store_clear_flat:
  assumes "j < length (heap s)" "\<not> truthy nested"
  shows "Store_clear (Suc n) s (Plain j) nested =
           Some (Inr (), emit j StoreCleared (remove_each j (items (heap s ! j)) s))"
  using assms by (simp add: data_get_def)

text \<open>
  C10. \<open>for\<close> through a readonly proxy of store \<open>n\<close> is \<open>for\<close> on \<open>n\<close> itself. What it
  returns is a store of the heap, not a proxy: \<open>set\<close> and \<open>delete\<close> of a key on it succeed,
  change \<open>has\<close> and emit their events, and \<open>clear\<close> succeeds and empties it.
\<close>

theorem readonly_view_for:
  assumes "well_formed s" and "call_for s (Readonly n) p = (Inr c, s')"
  shows "call_for s (Plain n) p = (Inr c, s')
         \<and> (\<exists>j. c = Plain j \<and> j < length (heap s')
              \<and> (\<forall>k v. \<not> throwIfInvalidName (JStr k) \<and> CHR ''/'' \<notin> set k \<longrightarrow>
                    (\<exists>s1 s2. call_set s' c (JStr k) v = (Inr c, s1)
                           \<and> call_has s1 c (JStr k) = Inr True
                           \<and> call_delete s1 c (JStr k) = (Inr (), s2)
                           \<and> call_has s2 c (JStr k) = Inr False
                           \<and> emitted s2 = emitted s' @ [(j, ItemSet k v), (j, ItemRemoved k)]))
              \<and> (\<forall>m. \<exists>s3. call_clear (Suc m) s' c JUndefined = Some (Inr (), s3)
                          \<and> items (heap s3 ! j) = []))"
proof -
  from assms(2) have f: "Store_for s (Plain n) p = (Inr c, s')"
    by (simp add: call_for_def)
  then have g: "getChildStore s (Plain n) (split (the_string p)) = (Inr c, s')"
    by (auto simp: Store_for_def split: if_splits)
  from getChildStore_in_heap [OF g assms(1)] split_not_Nil obtain j where
    c: "c = Plain j" and j: "j < length (heap s')" by blast
  have sets: "\<exists>s1 s2. call_set s' c (JStr k) v = (Inr c, s1)
                 \<and> call_has s1 c (JStr k) = Inr True
                 \<and> call_delete s1 c (JStr k) = (Inr (), s2)
                 \<and> call_has s2 c (JStr k) = Inr False
                 \<and> emitted s2 = emitted s' @ [(j, ItemSet k v), (j, ItemRemoved k)]"
    if k: "\<not> throwIfInvalidName (JStr k) \<and> CHR ''/'' \<notin> set k" for k v
  proof -
    let ?s1 = "emit j (ItemSet k v) (set_items j (AList.update k v (items (heap s' ! j))) s')"
    let ?s2 = "emit j (ItemRemoved k) (set_items j (AList.delete k (items (heap ?s1 ! j))) ?s1)"
    have 1: "call_set s' c (JStr k) v = (Inr c, ?s1)"
      using k j by (simp add: c call_set_def Store_set_bare)
    have j1: "j < length (heap ?s1)" using j by simp
    have 2: "call_has ?s1 c (JStr k) = Inr True"
      using k j by (simp add: c call_has_def Store_has_def data_get_def Map_has_def update_conv')
    have 3: "call_delete ?s1 c (JStr k) = (Inr (), ?s2)"
      using k j1 by (simp add: c call_delete_def Store_delete_bare del: heap_emit heap_set_items)
    have 4: "call_has ?s2 c (JStr k) = Inr False"
      using k j by (simp add: c call_has_def Store_has_def data_get_def Map_has_def delete_conv')
    have 5: "emitted ?s2 = emitted s' @ [(j, ItemSet k v), (j, ItemRemoved k)]"
      by simp
    from 1 2 3 4 5 show ?thesis by blast
  qed
  have clears: "\<exists>s3. call_clear (Suc m) s' c JUndefined = Some (Inr (), s3)
                  \<and> items (heap s3 ! j) = []" for m
    using j by (simp add: c call_clear_def Store_clear_flat remove_each_all del: Store_clear.simps)
  from f c j sets clears show ?thesis
    by (simp only: call_for_def lookup_Plain option.case) blast
qed

theorem readonly_view_for_witness:
  "well_formed family
   \<and> call_for family (Readonly 0) (JStr ''child'') = (Inr (Plain 1), family)
   \<and> call_for family (Plain 0) (JStr ''child'') = (Inr (Plain 1), family)
   \<and> \<not> throwIfInvalidName (JStr ''key'') \<and> CHR ''/'' \<notin> set ''key''
   \<and> (\<exists>s1 s2. call_set family (Plain 1) (JStr ''key'') (JNum 1) = (Inr (Plain 1), s1)
          \<and> call_has s1 (Plain 1) (JStr ''key'') = Inr True
          \<and> call_delete s1 (Plain 1) (JStr ''key'') = (Inr (), s2)
          \<and> call_has s2 (Plain 1) (JStr ''key'') = Inr False)
   \<and> (\<exists>s3. call_clear 1 family (Plain 1) JUndefined = Some (Inr (), s3)
          \<and> items (heap s3 ! 1) = [])"
proof -
  have w: "well_formed family" by code_simp
  have f: "call_for family (Readonly 0) (JStr ''child'') = (Inr (Plain 1), family)" by code_simp
  have k: "\<not> throwIfInvalidName (JStr ''key'') \<and> CHR ''/'' \<notin> set ''key''" by code_simp
  from readonly_view_for [OF w f] k w f show ?thesis
    by (simp only: ref.inject One_nat_def) blast
qed

text \<open>
  C4. \<open>delete\<close> of a key that the store does not hold emits \<open>item-removed\<close> all the same.
\<close>

theorem delete_absent_emits:
  "delete_absent = (Inr (), [(0, ItemRemoved ''key'')])"
  by code_simp

text \<open>
  In general: whatever the resolved store holds, \<open>delete\<close> of \<open>index.js\<close> emits
  \<open>item-removed\<close>; the ES6 source emits nothing for a key that is not there.
\<close>

lemma delete_absent_index_js:
  assumes "getPropData s r (the_string name) = (Inr (store, prop, m), s')"
    and "\<not> throwIfInvalidName name"
  shows "\<exists>s''. Store_delete s r name = (Inr (), s'')
           \<and> emitted s'' = emitted s' @ [(store, ItemRemoved prop)]"
  using assms by (simp add: Store_delete_def)

lemma delete_es6_absent:
  assumes "getPropData s r (the_string name) = (Inr (store, prop, m), s')"
    and "\<not> throwIfInvalidName name" and "\<not> throwIfInvalidName (JStr prop)"
    and "\<not> Map_has (items (heap s' ! store)) prop"
  shows "Store_delete_es6 s r name = (Inr (), s')"
  using assms getPropData_store [OF assms(1)]
  by (simp add: Store_delete_es6_def Store_has_def data_get_def)

text \<open>
  \<open>delete\<close> of a key on a store: the store does not hold the key afterwards, and one
  \<open>item-removed\<close> with the key's name is emitted on that store.
\<close>

lemma delete_existing:
  assumes "\<not> throwIfInvalidName (JStr k)" "CHR ''/'' \<notin> set k" "j < length (heap s)"
  shows "\<exists>s'. call_delete s (Plain j) (JStr k) = (Inr (), s')
           \<and> call_has s' (Plain j) (JStr k) = Inr False
           \<and> emitted s' = emitted s @ [(j, ItemRemoved k)]"
  using assms
  by (simp add: call_delete_def Store_delete_bare call_has_def Store_has_def data_get_def
        Map_has_def delete_conv')

section \<open>Clearing\<close>

text \<open>
  C5, as stated, fails: with one child, \<open>clear(true)\<close> emits the child's \<open>item-removed\<close>
  and \<open>store-cleared\<close> before the \<open>store-cleared\<close> of the node itself.
\<close>

theorem clear_nested_counterexample:
  "clear_nested (JNum 1) = Some [(1, ItemRemoved ''k''), (1, StoreCleared), (0, StoreCleared)]"
  by code_simp

lemma set_forOwn: "set (forOwn cs) = snd ` set cs"
  by (auto simp: forOwn_def)

lemma owned_iff:
  "owned s \<longleftrightarrow>
     (\<forall>i < length (heap s).
        distinct (map snd (children (heap s ! i)))
        \<and> (\<forall>(name, c) \<in> set (children (heap s ! i)).
              c < length (heap s) \<and> parent (heap s ! c) = Some (Plain i)))"
proof -
  have "owned s \<longleftrightarrow> (\<forall>i < length (heap s). owns s i (children (heap s ! i)))"
    by (simp add: owned_def list_all_length nth_enumerate_eq)
  then show ?thesis
    by (auto simp: owns_def list_all_iff data_get_def split: if_splits)
qed

lemma owned_child:
  assumes "owned s" "i < length (heap s)" "(name, c) \<in> set (children (heap s ! i))"
  shows "parent (heap s ! c) = Some (Plain i)"
  using assms by (auto simp: owned_iff)

lemma wf_child_mem:
  assumes "well_formed s" "i < length (heap s)" "(name, c) \<in> set (children (heap s ! i))"
  shows "i < c \<and> c < length (heap s)"
  using assms by (auto simp: wf_iff well_formed_meta_def list_all_iff)

lemma same_shape_sym: "same_shape s s' \<Longrightarrow> same_shape s' s"
  by (simp add: same_shape_def)

lemma owned_same_shape:
  assumes "same_shape s s'" "owned s"
  shows "owned s'"
  unfolding owned_iff
proof (intro allI impI)
  fix i assume "i < length (heap s')"
  with assms(1) have i: "i < length (heap s)" by (simp add: same_shape_length)
  have kids: "children (heap s' ! i) = children (heap s ! i)"
    using assms(1) i by (rule same_shape_nth)
  have "parent (heap s' ! c) = Some (Plain i) \<and> c < length (heap s')"
    if "(name, c) \<in> set (children (heap s ! i))" for name c
  proof -
    from that assms(2) i have c: "c < length (heap s)" "parent (heap s ! c) = Some (Plain i)"
      by (auto simp: owned_iff)
    with assms(1) show ?thesis by (simp add: same_shape_nth same_shape_length)
  qed
  with assms(2) i kids
  show "distinct (map snd (children (heap s' ! i)))
        \<and> (\<forall>(name, c) \<in> set (children (heap s' ! i)).
              c < length (heap s') \<and> parent (heap s' ! c) = Some (Plain i))"
    by (auto simp: owned_iff)
qed

lemma below_same_shape: "below s x c \<Longrightarrow> same_shape s s' \<Longrightarrow> below s' x c"
proof (induction rule: below.induct)
  case (self s c)
  show ?case by (rule below.self)
next
  case (child c s name d x)
  from child.prems child.hyps(1) have "c < length (heap s')" by (simp add: same_shape_length)
  moreover from child.prems child.hyps(1,2) have "(name, d) \<in> set (children (heap s' ! c))"
    by (simp add: same_shape_nth)
  moreover from child.IH child.prems have "below s' x d" by simp
  ultimately show ?case by (rule below.child)
qed

lemma below_same_shape_iff: "same_shape s s' \<Longrightarrow> below s' x c \<longleftrightarrow> below s x c"
  using below_same_shape same_shape_sym by blast

lemma below_ge: "below s x c \<Longrightarrow> well_formed s \<Longrightarrow> c \<le> x"
proof (induction rule: below.induct)
  case (self s c)
  show ?case by simp
next
  case (child c s name d x)
  from child.prems child.hyps(1,2) have "c < d" by (auto dest: wf_child_mem)
  with child.IH child.prems show ?case by simp
qed

lemma below_in_heap: "below s x c \<Longrightarrow> well_formed s \<Longrightarrow> c < length (heap s) \<Longrightarrow> x < length (heap s)"
proof (induction rule: below.induct)
  case (self s c)
  then show ?case by simp
next
  case (child c s name d x)
  from child.prems(1) child.hyps(1,2) have "d < length (heap s)" by (auto dest: wf_child_mem)
  with child.IH child.prems show ?case by simp
qed

lemma below_parent:
  "below s x c \<Longrightarrow> well_formed s \<Longrightarrow> owned s \<Longrightarrow> x \<noteq> c \<Longrightarrow>
   x < length (heap s) \<and> (\<exists>p. parent (heap s ! x) = Some (Plain p) \<and> below s p c)"
proof (induction rule: below.induct)
  case (self s c)
  then show ?case by simp
next
  case (child c s name d x)
  show ?case
  proof (cases "x = d")
    case True
    from child.prems(2) child.hyps(1,2) have "parent (heap s ! d) = Some (Plain c)"
      by (rule owned_child)
    moreover from child.prems(1) child.hyps(1,2) have "d < length (heap s)"
      by (auto dest: wf_child_mem)
    ultimately show ?thesis using True below.self by auto
  next
    case False
    with child.IH child.prems obtain p where
      "x < length (heap s)" "parent (heap s ! x) = Some (Plain p)" "below s p d" by auto
    moreover from child.hyps(1,2) \<open>below s p d\<close> have "below s p c" by (rule below.child)
    ultimately show ?thesis by auto
  qed
qed

lemma below_linear:
  "well_formed s \<Longrightarrow> owned s \<Longrightarrow> below s x c \<Longrightarrow> below s x c' \<Longrightarrow> below s c c' \<or> below s c' c"
proof (induction x rule: less_induct)
  case (less x)
  show ?case
  proof (cases "x = c \<or> x = c'")
    case True
    with less.prems show ?thesis by auto
  next
    case False
    from below_parent [OF less.prems(3) less.prems(1,2)] False obtain p where
      x: "x < length (heap s)" and p: "parent (heap s ! x) = Some (Plain p)" and pc: "below s p c"
      by auto
    from below_parent [OF less.prems(4) less.prems(1,2)] False obtain p' where
      p': "parent (heap s ! x) = Some (Plain p')" and pc': "below s p' c'" by auto
    from p p' have "p' = p" by simp
    moreover from less.prems(1) x p have "p < x" by (rule wf_parent)
    ultimately show ?thesis using less.IH [of p] less.prems(1,2) pc pc' by simp
  qed
qed

lemma siblings_disjoint:
  assumes "well_formed s" "owned s" "i < length (heap s)"
    and "(name, c) \<in> set (children (heap s ! i))" "(name', c') \<in> set (children (heap s ! i))"
    and "c \<noteq> c'" "below s x c" "below s x c'"
  shows False
proof -
  have no: "\<not> below s a b"
    if "(na, a) \<in> set (children (heap s ! i))" "(nb, b) \<in> set (children (heap s ! i))" "a \<noteq> b"
    for a b na nb
  proof
    assume ab: "below s a b"
    from below_parent [OF ab assms(1,2) that(3)] obtain p where
      "parent (heap s ! a) = Some (Plain p)" "below s p b" by auto
    moreover from assms(2,3) that(1) have "parent (heap s ! a) = Some (Plain i)"
      by (rule owned_child)
    ultimately have "below s i b" by simp
    then have "b \<le> i" using assms(1) by (rule below_ge)
    moreover from assms(1,3) that(2) have "i < b" by (auto dest: wf_child_mem)
    ultimately show False by simp
  qed
  from below_linear [OF assms(1,2,7,8)] no [OF assms(4,5,6)] no [OF assms(5,4)] assms(6)
  show False by auto
qed

lemma below_children:
  assumes "i < length (heap s)"
  shows "below s j i \<longleftrightarrow> j = i \<or> (\<exists>name c. (name, c) \<in> set (children (heap s ! i)) \<and> below s j c)"
proof
  assume "below s j i"
  then show "j = i \<or> (\<exists>name c. (name, c) \<in> set (children (heap s ! i)) \<and> below s j c)"
    by (cases rule: below.cases) auto
next
  assume "j = i \<or> (\<exists>name c. (name, c) \<in> set (children (heap s ! i)) \<and> below s j c)"
  with assms show "below s j i" by (auto intro: below.self below.child)
qed

lemma distinct_forOwn:
  assumes "distinct (map snd cs)"
  shows "distinct (forOwn cs)"
proof -
  let ?P = "\<lambda>(k, c). array_index k"
  let ?f = "\<lambda>(k, c). decimal k"
  from assms have d: "distinct cs" and inj: "inj_on snd (set cs)"
    by (simp_all add: distinct_map)
  have A: "distinct (sort_key ?f (filter ?P cs) @ filter (\<lambda>x. \<not> ?P x) cs)"
    using d by auto
  have B: "inj_on snd (set (sort_key ?f (filter ?P cs) @ filter (\<lambda>x. \<not> ?P x) cs))"
    using inj by (auto simp: inj_on_def)
  have "distinct (map snd (sort_key ?f (filter ?P cs) @ filter (\<lambda>x. \<not> ?P x) cs))"
    by (rule iffD2 [OF distinct_map conjI [OF A B]])
  moreover have "filter (\<lambda>(k, c). \<not> array_index k) cs = filter (\<lambda>x. \<not> ?P x) cs"
    by (rule filter_cong) auto
  ultimately show ?thesis by (simp only: forOwn_def)
qed

lemma forOwn_child:
  "c \<in> set (forOwn cs) \<longleftrightarrow> (\<exists>name. (name, c) \<in> set cs)"
  by (force simp: set_forOwn)

lemma spec_clear_sequence_cong:
  "same_shape s s' \<Longrightarrow> well_formed s \<Longrightarrow> c < length (heap s) \<Longrightarrow>
   (\<And>j. below s j c \<Longrightarrow> items (heap s' ! j) = items (heap s ! j)) \<Longrightarrow>
   spec_clear_sequence n s' c nested = spec_clear_sequence n s c nested"
proof (induction n arbitrary: c nested)
  case 0
  show ?case by simp
next
  case (Suc n)
  have own: "items (heap s' ! c) = items (heap s ! c)"
    using Suc.prems(4) below.self by blast
  have kids: "children (heap s' ! c) = children (heap s ! c)"
    using Suc.prems(1,3) by (rule same_shape_nth)
  have "spec_clear_sequence n s' d (JBool True) = spec_clear_sequence n s d (JBool True)"
    if "d \<in> set (forOwn (children (heap s ! c)))" for d
  proof -
    from that obtain name where mem: "(name, d) \<in> set (children (heap s ! c))"
      by (auto simp: forOwn_child)
    with Suc.prems(2,3) have d: "d < length (heap s)" by (auto dest: wf_child_mem)
    show ?thesis
    proof (rule Suc.IH [OF Suc.prems(1,2) d])
      fix j assume "below s j d"
      with Suc.prems(3) mem have "below s j c" by (rule below.child)
      then show "items (heap s' ! j) = items (heap s ! j)" by (rule Suc.prems(4))
    qed
  qed
  then have "map (\<lambda>d. spec_clear_sequence n s' d (JBool True)) (forOwn (children (heap s ! c)))
             = map (\<lambda>d. spec_clear_sequence n s d (JBool True)) (forOwn (children (heap s ! c)))"
    by simp
  then show ?case by (simp add: own kids cong: map_cong)
qed

lemma spec_clear_sequence_scopes:
  "e \<in> set (spec_clear_sequence n s c nested) \<Longrightarrow> well_formed s \<Longrightarrow> c < length (heap s) \<Longrightarrow>
   below s (fst e) c"
proof (induction n arbitrary: c nested)
  case 0
  then show ?case by simp
next
  case (Suc n)
  from Suc.prems(1) consider
    "fst e = c"
    | d where "d \<in> set (forOwn (children (heap s ! c)))" "e \<in> set (spec_clear_sequence n s d (JBool True))"
    by (auto split: if_splits)
  then show ?case
  proof cases
    case 1
    then show ?thesis by (simp add: below.self)
  next
    case 2
    from 2(1) obtain name where mem: "(name, d) \<in> set (children (heap s ! c))"
      by (auto simp: forOwn_child)
    with Suc.prems(2,3) have d: "d < length (heap s)" by (auto dest: wf_child_mem)
    from Suc.IH [OF 2(2) Suc.prems(2) d] Suc.prems(3) mem show ?thesis
      by (auto intro: below.child)
  qed
qed

lemma cleared_iff:
  "well_formed s \<Longrightarrow> c < length (heap s) \<Longrightarrow> length (heap s) \<le> n + c \<Longrightarrow>
   (j, StoreCleared) \<in> set (spec_clear_sequence n s c nested)
     \<longleftrightarrow> (if truthy nested then below s j c else j = c)"
proof (induction n arbitrary: c nested)
  case 0
  then show ?case by simp
next
  case (Suc n)
  have kid: "(j, StoreCleared) \<in> set (spec_clear_sequence n s d (JBool True)) \<longleftrightarrow> below s j d"
    if "(name, d) \<in> set (children (heap s ! c))" for name d
  proof -
    from that Suc.prems(1,2) have "c < d \<and> d < length (heap s)" by (auto dest: wf_child_mem)
    with Suc.prems(3) Suc.IH [OF Suc.prems(1), of d "JBool True"] show ?thesis by simp
  qed
  have "(j, StoreCleared) \<in> set (spec_clear_sequence (Suc n) s c nested)
        \<longleftrightarrow> j = c \<or> (truthy nested \<and>
              (\<exists>d \<in> set (forOwn (children (heap s ! c))).
                 (j, StoreCleared) \<in> set (spec_clear_sequence n s d (JBool True))))"
    by auto
  also have "\<dots> \<longleftrightarrow> j = c \<or> (truthy nested \<and>
              (\<exists>name d. (name, d) \<in> set (children (heap s ! c)) \<and> below s j d))"
    unfolding Bex_def forOwn_child using kid by blast
  also have "\<dots> \<longleftrightarrow> (if truthy nested then below s j c else j = c)"
    using below_children [OF Suc.prems(2), of j] by auto
  finally show ?case .
qed

lemma clear_children_exact:
  assumes P: "\<And>s i nested. well_formed s \<Longrightarrow> owned s \<Longrightarrow> i < length (heap s) \<Longrightarrow>
                length (heap s) \<le> n + i \<Longrightarrow>
                \<exists>s'. Store_clear n s (Plain i) nested = Some (Inr (), s')
                     \<and> cleared_exactly n s i nested s'"
  shows "well_formed s \<Longrightarrow> owned s \<Longrightarrow> i < length (heap s) \<Longrightarrow> length (heap s) \<le> Suc n + i \<Longrightarrow>
         distinct cs \<Longrightarrow> \<forall>c \<in> set cs. \<exists>name. (name, c) \<in> set (children (heap s ! i)) \<Longrightarrow>
         \<exists>s'. clear_children n s cs = Some (Inr (), s') \<and> children_cleared_exactly n s cs s'"
proof (induction cs arbitrary: s)
  case Nil
  show ?case by (simp add: children_cleared_exactly_def same_shape_refl)
next
  case (Cons c cs)
  note wf = Cons.prems(1) and own = Cons.prems(2) and i = Cons.prems(3)
  from Cons.prems(6) obtain name where mem: "(name, c) \<in> set (children (heap s ! i))" by auto
  from wf i mem have c: "i < c" "c < length (heap s)" by (auto dest: wf_child_mem)
  with Cons.prems(4) have fuel: "length (heap s) \<le> n + c" by simp
  from P [OF wf own c(2) fuel, of "JBool True"] obtain s1 where
    run1: "Store_clear n s (Plain c) (JBool True) = Some (Inr (), s1)"
    and post1: "cleared_exactly n s c (JBool True) s1" by blast
  from post1 have shape1: "same_shape s s1"
    and em1: "emitted s1 = emitted s @ spec_clear_sequence n s c (JBool True)"
    and it1: "\<And>j. j < length (heap s) \<Longrightarrow>
                items (heap s1 ! j) = (if below s j c then [] else items (heap s ! j))"
    by (simp_all add: cleared_exactly_def)
  from shape1 have len1: "length (heap s1) = length (heap s)" by (rule same_shape_length)
  from shape1 wf have wf1: "well_formed s1" by (rule wf_same_shape)
  from shape1 own have own1: "owned s1" by (rule owned_same_shape)
  from shape1 i have kids1: "children (heap s1 ! i) = children (heap s ! i)"
    by (rule same_shape_nth)
  from Cons.prems(5) have dcs: "distinct cs" and notin: "c \<notin> set cs" by simp_all
  from Cons.prems(6) have mems: "\<forall>c' \<in> set cs. \<exists>name. (name, c') \<in> set (children (heap s1 ! i))"
    by (simp add: kids1)
  from Cons.IH [OF wf1 own1 _ _ dcs mems] i Cons.prems(4) len1 obtain s2 where
    run2: "clear_children n s1 cs = Some (Inr (), s2)"
    and post2: "children_cleared_exactly n s1 cs s2" by auto
  from post2 have shape2: "same_shape s1 s2"
    and em2: "emitted s2 = emitted s1 @ concat (map (\<lambda>c. spec_clear_sequence n s1 c (JBool True)) cs)"
    and it2: "\<And>j. j < length (heap s) \<Longrightarrow>
                items (heap s2 ! j) = (if \<exists>c' \<in> set cs. below s1 j c' then [] else items (heap s1 ! j))"
    by (simp_all add: children_cleared_exactly_def len1)
  have apart: "\<not> below s j c" if "c' \<in> set cs" "below s j c'" for j c'
  proof
    assume jc: "below s j c"
    from that(1) Cons.prems(6) obtain name' where
      mem': "(name', c') \<in> set (children (heap s ! i))" by auto
    from that(1) notin have "c \<noteq> c'" by auto
    from siblings_disjoint [OF wf own i mem mem' this jc that(2)] show False .
  qed
  have same: "spec_clear_sequence n s1 c' (JBool True) = spec_clear_sequence n s c' (JBool True)"
    if "c' \<in> set cs" for c'
  proof -
    from that Cons.prems(6) obtain name' where
      mem': "(name', c') \<in> set (children (heap s ! i))" by auto
    with wf i have c': "c' < length (heap s)" by (auto dest: wf_child_mem)
    show ?thesis
    proof (rule spec_clear_sequence_cong [OF shape1 wf c'])
      fix j assume jc': "below s j c'"
      then have "j < length (heap s)" using wf c' by (rule below_in_heap)
      with it1 [of j] apart [OF that jc'] show "items (heap s1 ! j) = items (heap s ! j)" by simp
    qed
  qed
  have "clear_children n s (c # cs) = Some (Inr (), s2)"
    using run1 run2 by simp
  moreover have "children_cleared_exactly n s (c # cs) s2"
    unfolding children_cleared_exactly_def
  proof (intro conjI allI impI)
    show "same_shape s s2" using shape1 shape2 by (rule same_shape_trans)
    have eq: "map (\<lambda>c. spec_clear_sequence n s1 c (JBool True)) cs
          = map (\<lambda>c. spec_clear_sequence n s c (JBool True)) cs"
      by (rule map_cong [OF refl]) (rule same)
    show "emitted s2 = emitted s @ concat (map (\<lambda>c. spec_clear_sequence n s c (JBool True)) (c # cs))"
      unfolding em2 em1 eq by simp
  next
    fix j assume j: "j < length (heap s)"
    have "(\<exists>c' \<in> set cs. below s1 j c') \<longleftrightarrow> (\<exists>c' \<in> set cs. below s j c')"
      using below_same_shape_iff [OF shape1] by simp
    with it1 [OF j] it2 [OF j]
    show "items (heap s2 ! j) = (if \<exists>c' \<in> set (c # cs). below s j c' then [] else items (heap s ! j))"
      by auto
  qed
  ultimately show ?case by blast
qed

lemma Store_clear_exact:
  "well_formed s \<Longrightarrow> owned s \<Longrightarrow> i < length (heap s) \<Longrightarrow> length (heap s) \<le> n + i \<Longrightarrow>
   \<exists>s'. Store_clear n s (Plain i) nested = Some (Inr (), s') \<and> cleared_exactly n s i nested s'"
proof (induction n arbitrary: s i nested)
  case 0
  then show ?case by simp
next
  case (Suc n)
  note wf = Suc.prems(1) and own = Suc.prems(2) and i = Suc.prems(3)
  let ?own = "map (\<lambda>(k, v). (i, ItemRemoved k)) (items (heap s ! i))"
  let ?s1 = "remove_each i (items (heap s ! i)) s"
  let ?cs = "forOwn (children (heap s ! i))"
  have heap1: "heap ?s1 = (heap s)[i := (heap s ! i)\<lparr>items := []\<rparr>]"
    using i by (rule remove_each_all)
  have em1: "emitted ?s1 = emitted s @ ?own" by (rule remove_each_emitted)
  have shape1: "same_shape s ?s1" using i heap1 by (rule same_shape_items)
  have len1: "length (heap ?s1) = length (heap s)" by (simp add: heap1)
  have kids1: "children (heap ?s1 ! i) = children (heap s ! i)"
    using i by (simp add: heap1)
  have it1: "items (heap ?s1 ! j) = (if j = i then [] else items (heap s ! j))"
    if "j < length (heap s)" for j
    unfolding heap1 using that by simp
  show ?case
  proof (cases "truthy nested")
    case False
    have "Store_clear (Suc n) s (Plain i) nested = Some (Inr (), emit i StoreCleared ?s1)"
      using i False by (rule Store_clear_flat)
    moreover have "cleared_exactly (Suc n) s i nested (emit i StoreCleared ?s1)"
      using False shape1 it1 by (simp add: cleared_exactly_def em1 same_shape_emit)
    ultimately show ?thesis by blast
  next
    case True
    from shape1 wf have wf1: "well_formed ?s1" by (rule wf_same_shape)
    from shape1 own have own1: "owned ?s1" by (rule owned_same_shape)
    from own i have "distinct (map snd (children (heap s ! i)))" by (simp add: owned_iff)
    then have dcs: "distinct ?cs" by (rule distinct_forOwn)
    have mems: "\<forall>c \<in> set ?cs. \<exists>name. (name, c) \<in> set (children (heap ?s1 ! i))"
      by (simp add: kids1 forOwn_child)
    from clear_children_exact [of n, OF Suc.IH wf1 own1 _ _ dcs mems] i Suc.prems(4) len1
    obtain s2 where run: "clear_children n ?s1 ?cs = Some (Inr (), s2)"
      and post: "children_cleared_exactly n ?s1 ?cs s2" by auto
    from post have shape2: "same_shape ?s1 s2"
      and em2: "emitted s2 = emitted ?s1 @ concat (map (\<lambda>c. spec_clear_sequence n ?s1 c (JBool True)) ?cs)"
      and it2: "\<And>j. j < length (heap s) \<Longrightarrow>
                  items (heap s2 ! j) = (if \<exists>c \<in> set ?cs. below ?s1 j c then [] else items (heap ?s1 ! j))"
      by (simp_all add: children_cleared_exactly_def len1)
    have same: "spec_clear_sequence n ?s1 c (JBool True) = spec_clear_sequence n s c (JBool True)"
      if "c \<in> set ?cs" for c
    proof -
      from that obtain name where mem: "(name, c) \<in> set (children (heap s ! i))"
        by (auto simp: forOwn_child)
      with wf i have c: "i < c" "c < length (heap s)" by (auto dest: wf_child_mem)
      show ?thesis
      proof (rule spec_clear_sequence_cong [OF shape1 wf c(2)])
        fix j assume jc: "below s j c"
        then have "c \<le> j" using wf by (rule below_ge)
        moreover from jc have "j < length (heap s)" using wf c(2) by (rule below_in_heap)
        ultimately show "items (heap ?s1 ! j) = items (heap s ! j)" using c(1) it1 [of j] by simp
      qed
    qed
    have "Store_clear (Suc n) s (Plain i) nested = Some (Inr (), emit i StoreCleared s2)"
      using i True run by (simp add: data_get_def kids1)
    moreover have "cleared_exactly (Suc n) s i nested (emit i StoreCleared s2)"
      unfolding cleared_exactly_def
    proof (intro conjI allI impI)
      show "same_shape s (emit i StoreCleared s2)"
        using shape1 shape2 by (auto intro: same_shape_trans same_shape_emit)
      have eq: "map (\<lambda>c. spec_clear_sequence n ?s1 c (JBool True)) ?cs
            = map (\<lambda>c. spec_clear_sequence n s c (JBool True)) ?cs"
        by (rule map_cong [OF refl]) (rule same)
      have "emitted s2 = emitted s @ ?own @ concat (map (\<lambda>c. spec_clear_sequence n s c (JBool True)) ?cs)"
        unfolding em2 em1 eq by simp
      then show "emitted (emit i StoreCleared s2) = emitted s @ spec_clear_sequence (Suc n) s i nested"
        using True by simp
    next
      fix j assume j: "j < length (heap s)"
      have kids: "(\<exists>c \<in> set ?cs. below ?s1 j c)
                  \<longleftrightarrow> (\<exists>name c. (name, c) \<in> set (children (heap s ! i)) \<and> below s j c)"
        unfolding Bex_def forOwn_child below_same_shape_iff [OF shape1] by blast
      have self: "\<not> (\<exists>name c. (name, c) \<in> set (children (heap s ! i)) \<and> below s i c)"
      proof
        assume "\<exists>name c. (name, c) \<in> set (children (heap s ! i)) \<and> below s i c"
        then obtain name c where mem: "(name, c) \<in> set (children (heap s ! i))"
          and ic: "below s i c" by blast
        from ic wf have "c \<le> i" by (rule below_ge)
        moreover from wf i mem have "i < c" by (auto dest: wf_child_mem)
        ultimately show False by simp
      qed
      from it2 [OF j] it1 [OF j] kids self below_children [OF i, of j] True
      show "items (heap (emit i StoreCleared s2) ! j)
            = (if (if truthy nested then below s j i else j = i) then [] else items (heap s ! j))"
        by (cases "j = i") auto
    qed
    ultimately show ?thesis by blast
  qed
qed

lemma spec_clear_sequence_above:
  assumes "well_formed s" "i < length (heap s)" "c \<in> set (forOwn (children (heap s ! i)))"
    and "e \<in> set (spec_clear_sequence n s c nested)"
  shows "i < fst e"
proof -
  from assms(3) obtain name where "(name, c) \<in> set (children (heap s ! i))"
    by (auto simp: forOwn_child)
  with assms(1,2) have c: "i < c" "c < length (heap s)" by (auto dest: wf_child_mem)
  from assms(4,1) c(2) have "below s (fst e) c" by (rule spec_clear_sequence_scopes)
  then have "c \<le> fst e" using assms(1) by (rule below_ge)
  with c(1) show ?thesis by simp
qed

text \<open>
  C5, amended. On a store of a well-formed forest, with a bound that covers the depth of
  the tree, \<open>clear\<close> returns. The events it emits are, in this order: one \<open>item-removed\<close>
  for each of the store's own items; then, if \<open>nested\<close> is truthy, for every child in the
  order of \<open>forOwn\<close>, the child's full sequence, which is the sequence that \<open>clear(true)\<close>
  called on that child emits, all of it on the child and its descendants; and last the
  store's single \<open>store-cleared\<close>. The tree stays as it is, the stores emptied are those
  that emitted \<open>store-cleared\<close>, and without a truthy \<open>nested\<close> no other store changes.
\<close>

theorem clear_order:
  assumes "well_formed s" and "owned s" and "i < length (heap s)"
    and "length (heap s) \<le> Suc n + i"
  shows "\<exists>s'. call_clear (Suc n) s (Plain i) nested = Some (Inr (), s')
           \<and> emitted s' = emitted s
               @ map (\<lambda>(k, v). (i, ItemRemoved k)) (items (heap s ! i))
               @ (if truthy nested
                  then concat (map (\<lambda>c. spec_clear_sequence n s c (JBool True))
                                 (forOwn (children (heap s ! i))))
                  else [])
               @ [(i, StoreCleared)]
           \<and> (\<forall>c \<in> set (forOwn (children (heap s ! i))).
                 (\<exists>t. call_clear n s (Plain c) (JBool True) = Some (Inr (), t)
                      \<and> emitted t = emitted s @ spec_clear_sequence n s c (JBool True))
                 \<and> (\<forall>e \<in> set (spec_clear_sequence n s c (JBool True)). i < fst e))
           \<and> map children (heap s') = map children (heap s)
           \<and> map parent (heap s') = map parent (heap s)
           \<and> (\<forall>j < length (heap s).
                 items (heap s' ! j) =
                   (if (j, StoreCleared) \<in> set (spec_clear_sequence (Suc n) s i nested) then []
                    else items (heap s ! j)))
           \<and> (\<not> truthy nested \<longrightarrow> (\<forall>j. j \<noteq> i \<longrightarrow> heap s' ! j = heap s ! j))"
proof -
  from Store_clear_exact [OF assms, of nested] obtain s' where
    run: "Store_clear (Suc n) s (Plain i) nested = Some (Inr (), s')"
    and post: "cleared_exactly (Suc n) s i nested s'" by blast
  have 1: "call_clear (Suc n) s (Plain i) nested = Some (Inr (), s')"
    using run by (simp add: call_clear_def)
  have 2: "emitted s' = emitted s
               @ map (\<lambda>(k, v). (i, ItemRemoved k)) (items (heap s ! i))
               @ (if truthy nested
                  then concat (map (\<lambda>c. spec_clear_sequence n s c (JBool True))
                                 (forOwn (children (heap s ! i))))
                  else [])
               @ [(i, StoreCleared)]"
    using post by (simp add: cleared_exactly_def)
  have 3: "(\<exists>t. call_clear n s (Plain c) (JBool True) = Some (Inr (), t)
                \<and> emitted t = emitted s @ spec_clear_sequence n s c (JBool True))
           \<and> (\<forall>e \<in> set (spec_clear_sequence n s c (JBool True)). i < fst e)"
    if c: "c \<in> set (forOwn (children (heap s ! i)))" for c
  proof -
    from c obtain name where "(name, c) \<in> set (children (heap s ! i))"
      by (auto simp: forOwn_child)
    with assms(1,3) have "i < c" "c < length (heap s)" by (auto dest: wf_child_mem)
    with assms(4) Store_clear_exact [OF assms(1,2), of c n "JBool True"]
    have "\<exists>t. call_clear n s (Plain c) (JBool True) = Some (Inr (), t)
              \<and> emitted t = emitted s @ spec_clear_sequence n s c (JBool True)"
      by (auto simp: call_clear_def cleared_exactly_def)
    with spec_clear_sequence_above [OF assms(1,3) c] show ?thesis by blast
  qed
  have 4: "map children (heap s') = map children (heap s) \<and> map parent (heap s') = map parent (heap s)"
    using post by (simp add: cleared_exactly_def same_shape_def)
  have 5: "items (heap s' ! j) =
             (if (j, StoreCleared) \<in> set (spec_clear_sequence (Suc n) s i nested) then []
              else items (heap s ! j))"
    if "j < length (heap s)" for j
    using post that cleared_iff [OF assms(1,3,4), of j nested]
    by (simp add: cleared_exactly_def)
  have 6: "heap s' ! j = heap s ! j" if "\<not> truthy nested" "j \<noteq> i" for j
  proof -
    from that(1) assms(3) run
    have "s' = emit i StoreCleared (remove_each i (items (heap s ! i)) s)"
      by (simp add: Store_clear_flat del: Store_clear.simps)
    with that(2) assms(3) show ?thesis by (simp add: remove_each_all)
  qed
  from 1 2 3 4 5 6 show ?thesis by blast
qed

theorem clear_order_witness:
  "well_formed dynasty \<and> owned dynasty \<and> 0 < length (heap dynasty)
   \<and> length (heap dynasty) \<le> Suc 2 + 0
   \<and> (\<exists>s'. call_clear (Suc 2) dynasty (Plain 0) (JBool True) = Some (Inr (), s')
          \<and> emitted s' = emitted dynasty
                @ [(0, ItemRemoved ''r''), (1, ItemRemoved ''k''), (2, ItemRemoved ''g''),
                   (2, StoreCleared), (1, StoreCleared), (0, StoreCleared)]
          \<and> map items (heap s') = [[], [], []])
   \<and> (\<exists>t. call_clear 2 dynasty (Plain 1) (JBool True) = Some (Inr (), t)
          \<and> emitted t = emitted dynasty
                @ [(1, ItemRemoved ''k''), (2, ItemRemoved ''g''), (2, StoreCleared), (1, StoreCleared)])
   \<and> (\<exists>s'. call_clear (Suc 2) dynasty (Plain 0) JUndefined = Some (Inr (), s')
          \<and> emitted s' = emitted dynasty @ [(0, ItemRemoved ''r''), (0, StoreCleared)]
          \<and> map items (heap s') = [[], [(''k'', JNum 2)], [(''g'', JNum 3)]])"
proof -
  have w: "well_formed dynasty" by code_simp
  have o: "owned dynasty" by code_simp
  have i: "0 < length (heap dynasty)" by code_simp
  have n: "length (heap dynasty) \<le> Suc 2 + 0" by code_simp
  have len: "length (heap dynasty) = 3" by code_simp
  have its: "items (heap dynasty ! 0) = [(''r'', JNum 1)]"
    "items (heap dynasty ! 1) = [(''k'', JNum 2)]" "items (heap dynasty ! 2) = [(''g'', JNum 3)]"
    by code_simp+
  have kids: "forOwn (children (heap dynasty ! 0)) = [1]" by code_simp
  have sub: "spec_clear_sequence 2 dynasty 1 (JBool True)
             = [(1, ItemRemoved ''k''), (2, ItemRemoved ''g''), (2, StoreCleared), (1, StoreCleared)]"
    by code_simp
  have deep: "spec_clear_sequence (Suc 2) dynasty 0 (JBool True)
             = [(0, ItemRemoved ''r''), (1, ItemRemoved ''k''), (2, ItemRemoved ''g''),
                (2, StoreCleared), (1, StoreCleared), (0, StoreCleared)]"
    by code_simp
  have flat: "spec_clear_sequence (Suc 2) dynasty 0 JUndefined = [(0, ItemRemoved ''r''), (0, StoreCleared)]"
    by code_simp
  have three: "map items h = [items (h ! 0), items (h ! 1), items (h ! 2)]"
    if "length h = 3" for h :: "meta list"
    using that by (auto simp: list_eq_iff_nth_eq less_Suc_eq numeral_3_eq_3 numeral_2_eq_2)
  from clear_order [OF w o i n, of "JBool True"] obtain s' where
    1: "call_clear (Suc 2) dynasty (Plain 0) (JBool True) = Some (Inr (), s')"
    and 2: "emitted s' = emitted dynasty
              @ map (\<lambda>(k, v). (0, ItemRemoved k)) (items (heap dynasty ! 0))
              @ (if truthy (JBool True)
                 then concat (map (\<lambda>c. spec_clear_sequence 2 dynasty c (JBool True))
                                (forOwn (children (heap dynasty ! 0))))
                 else [])
              @ [(0, StoreCleared)]"
    and 3: "\<forall>c \<in> set (forOwn (children (heap dynasty ! 0))).
              (\<exists>t. call_clear 2 dynasty (Plain c) (JBool True) = Some (Inr (), t)
                   \<and> emitted t = emitted dynasty @ spec_clear_sequence 2 dynasty c (JBool True))
              \<and> (\<forall>e \<in> set (spec_clear_sequence 2 dynasty c (JBool True)). 0 < fst e)"
    and 4: "map children (heap s') = map children (heap dynasty)"
    and 5: "\<forall>j < length (heap dynasty).
              items (heap s' ! j) =
                (if (j, StoreCleared) \<in> set (spec_clear_sequence (Suc 2) dynasty 0 (JBool True)) then []
                 else items (heap dynasty ! j))"
    by blast
  from 4 have "length (heap s') = 3" using len by (metis length_map)
  moreover from 5 [unfolded deep len]
  have "items (heap s' ! 0) = []" "items (heap s' ! 1) = []" "items (heap s' ! 2) = []"
    by simp_all
  ultimately have 6: "map items (heap s') = [[], [], []]" by (simp add: three)
  from 2 sub have 7: "emitted s' = emitted dynasty
                @ [(0, ItemRemoved ''r''), (1, ItemRemoved ''k''), (2, ItemRemoved ''g''),
                   (2, StoreCleared), (1, StoreCleared), (0, StoreCleared)]"
    by (simp add: its kids)
  from 3 sub have 8: "\<exists>t. call_clear 2 dynasty (Plain 1) (JBool True) = Some (Inr (), t)
          \<and> emitted t = emitted dynasty
                @ [(1, ItemRemoved ''k''), (2, ItemRemoved ''g''), (2, StoreCleared), (1, StoreCleared)]"
    by (simp add: kids)
  from clear_order [OF w o i n, of JUndefined] obtain s'' where
    9: "call_clear (Suc 2) dynasty (Plain 0) JUndefined = Some (Inr (), s'')"
    and 10: "emitted s'' = emitted dynasty
              @ map (\<lambda>(k, v). (0, ItemRemoved k)) (items (heap dynasty ! 0))
              @ (if truthy JUndefined
                 then concat (map (\<lambda>c. spec_clear_sequence 2 dynasty c (JBool True))
                                (forOwn (children (heap dynasty ! 0))))
                 else [])
              @ [(0, StoreCleared)]"
    and 11: "map children (heap s'') = map children (heap dynasty)"
    and 12: "\<forall>j < length (heap dynasty).
              items (heap s'' ! j) =
                (if (j, StoreCleared) \<in> set (spec_clear_sequence (Suc 2) dynasty 0 JUndefined) then []
                 else items (heap dynasty ! j))"
    by blast
  from 11 have "length (heap s'') = 3" using len by (metis length_map)
  moreover from 12 [unfolded flat len] its
  have "items (heap s'' ! 0) = []" "items (heap s'' ! 1) = [(''k'', JNum 2)]"
    "items (heap s'' ! 2) = [(''g'', JNum 3)]"
    by simp_all
  ultimately have 13: "map items (heap s'') = [[], [(''k'', JNum 2)], [(''g'', JNum 3)]]"
    by (simp add: three)
  from 10 have 14: "emitted s'' = emitted dynasty @ [(0, ItemRemoved ''r''), (0, StoreCleared)]"
    by (simp add: its)
  from 1 7 6 have deep_run:
    "\<exists>s'. call_clear (Suc 2) dynasty (Plain 0) (JBool True) = Some (Inr (), s')
          \<and> emitted s' = emitted dynasty
                @ [(0, ItemRemoved ''r''), (1, ItemRemoved ''k''), (2, ItemRemoved ''g''),
                   (2, StoreCleared), (1, StoreCleared), (0, StoreCleared)]
          \<and> map items (heap s') = [[], [], []]"
    by (intro exI [of _ s'] conjI)
  from 9 14 13 have flat_run:
    "\<exists>s'. call_clear (Suc 2) dynasty (Plain 0) JUndefined = Some (Inr (), s')
          \<and> emitted s' = emitted dynasty @ [(0, ItemRemoved ''r''), (0, StoreCleared)]
          \<and> map items (heap s') = [[], [(''k'', JNum 2)], [(''g'', JNum 3)]]"
    by (intro exI [of _ s''] conjI)
  from w o i n deep_run 8 flat_run show ?thesis by (intro conjI)
qed

section \<open>The reactive read\<close>

text \<open>
  C1. A subscriber of \<open>child.get('key')\<close> that subscribed before any mutation sees, over
  \<open>root.set('key', a)\<close>, \<open>root.set('key', b)\<close>, \<open>root.set('key', c)\<close>, \<open>child.set('key', d)\<close>,
  \<open>root.set('key', e)\<close>, \<open>root.set('key', f)\<close>, \<open>child.set('key', g)\<close>, exactly
  \<open>a, b, c, d, g\<close>, whatever the seven values are: the parent's values until the first
  local \<open>set\<close>, none of the parent's afterwards, and nothing delivered is taken back.
\<close>

theorem interleaved_sets:
  "interleaved a b c d e f g = Some [a, b, c, d, g]"
  by code_simp

text \<open>\<open>get\<close> and \<open>root\<close> return on every well-formed state.\<close>

lemma root_loop_returns:
  "well_formed s \<Longrightarrow> \<exists>res. root_loop s current (Some (Plain a)) = Some res"
proof (induction a arbitrary: current rule: less_induct)
  case (less a)
  show ?case
  proof (cases "a < length (heap s)")
    case False
    then show ?thesis by (subst root_loop.simps) (simp add: data_get_def)
  next
    case True
    show ?thesis
    proof (cases "parent (heap s ! a)")
      case None
      with True show ?thesis
        by (subst root_loop.simps) (simp add: data_get_def root_loop.simps)
    next
      case (Some p)
      show ?thesis
      proof (cases p)
        case (Readonly x)
        with True Some show ?thesis
          by (subst root_loop.simps) (simp add: data_get_def root_loop.simps [of s _ "Some (Readonly x)"])
      next
        case (Plain q)
        with less.prems True Some have "q < a" by (auto dest: wf_parent)
        from less.IH [OF this less.prems, of "Plain a"] True Some Plain show ?thesis
          by (subst root_loop.simps) (simp add: data_get_def)
      qed
    qed
  qed
qed

lemma call_root_returns: "well_formed s \<Longrightarrow> \<exists>res. call_root s r = Some res"
proof -
  assume w: "well_formed s"
  let ?t = "case r of Plain i \<Rightarrow> Plain i | Readonly i \<Rightarrow> Plain i"
  obtain i where t: "?t = Plain i" by (cases r) auto
  show ?thesis
  proof (cases "data_get s (Plain i)")
    case None
    then show ?thesis by (simp add: call_root_def Store_root_def t)
  next
    case (Some m)
    show ?thesis
    proof (cases "parent m")
      case None
      with Some show ?thesis by (simp add: call_root_def Store_root_def t root_loop.simps)
    next
      case (Some p)
      show ?thesis
      proof (cases p)
        case (Readonly x)
        with \<open>data_get s (Plain i) = Some m\<close> Some show ?thesis
          by (simp add: call_root_def Store_root_def t root_loop.simps [of s _ "Some (Readonly x)"]
                data_get_def)
      next
        case (Plain q)
        with \<open>data_get s (Plain i) = Some m\<close> Some root_loop_returns [OF w, of "Plain i" q]
        show ?thesis by (simp add: call_root_def Store_root_def t)
      qed
    qed
  qed
qed

lemma Store_get_Readonly_returns:
  "CHR ''/'' \<notin> set k \<Longrightarrow> \<exists>res. Store_get s (Readonly x) (JStr k) = Some res"
  by (subst Store_get.simps) (simp add: getPropData_bare_Readonly)

lemma Store_get_bare_returns:
  "well_formed s \<Longrightarrow> CHR ''/'' \<notin> set k \<Longrightarrow> \<exists>res. Store_get s (Plain i) (JStr k) = Some res"
proof (induction i rule: less_induct)
  case (less i)
  show ?case
  proof (cases "throwIfInvalidName (JStr k) \<or> \<not> i < length (heap s)")
    case True
    with less.prems(2) show ?thesis
      by (subst Store_get.simps) (auto simp: getPropData_bare)
  next
    case False
    show ?thesis
    proof (cases "parent (heap s ! i)")
      case None
      with False less.prems(2) show ?thesis
        by (subst Store_get.simps) (simp add: getPropData_bare)
    next
      case (Some p)
      have "\<exists>res. Store_get s p (JStr k) = Some res"
      proof (cases p)
        case (Readonly x)
        with Store_get_Readonly_returns [OF less.prems(2), of s x] show ?thesis by simp
      next
        case (Plain q)
        with less.prems(1) False Some have "q < i" by (auto dest: wf_parent)
        with less.IH less.prems Plain show ?thesis by simp
      qed
      then obtain x s2 where "Store_get s p (JStr k) = Some (x, s2)" by auto
      with False less.prems(2) Some show ?thesis
        by (subst Store_get.simps) (simp add: getPropData_bare)
    qed
  qed
qed

lemma call_get_returns: "well_formed s \<Longrightarrow> \<exists>res. call_get s r name = Some res"
proof -
  assume w: "well_formed s"
  obtain x s1 where g: "getPropData s r (the_string name) = (x, s1)"
    by (cases "getPropData s r (the_string name)")
  from g w have w1: "well_formed s1" by (rule getPropData_wf)
  have "\<exists>res. Store_get s r name = Some res"
  proof (cases "throwIfInvalidName name")
    case True
    then show ?thesis by (subst Store_get.simps) simp
  next
    case False
    show ?thesis
    proof (cases x)
      case (Inl e)
      with False g show ?thesis by (subst Store_get.simps) simp
    next
      case (Inr t)
      obtain store key m where t: "t = (store, key, m)" by (cases t)
      from g Inr t have key: "CHR ''/'' \<notin> set key"
        using getPropData_store [of s r "the_string name" store key m s1]
        by (simp add: last_split_bare)
      have "\<exists>res. (case parent m of
                      None \<Rightarrow> Some (Inr Empty, s1)
                    | Some p \<Rightarrow> Store_get s1 p (JStr key)) = Some res"
      proof (cases "parent m")
        case None
        then show ?thesis by simp
      next
        case (Some p)
        then show ?thesis
          using Store_get_Readonly_returns [OF key, of s1] Store_get_bare_returns [OF w1 key]
          by (cases p) simp_all
      qed
      then obtain y s2 where "(case parent m of
                      None \<Rightarrow> Some (Inr Empty, s1)
                    | Some p \<Rightarrow> Store_get s1 p (JStr key)) = Some (y, s2)" by auto
      with False g Inr t show ?thesis by (subst Store_get.simps) simp
    qed
  qed
  then show ?thesis by (simp add: call_get_def)
qed

lemma Store_get_bare_state:
  "Store_get s r name = Some y \<Longrightarrow> CHR ''/'' \<notin> set (the_string name) \<Longrightarrow> snd y = s"
proof (induction rule: Store_get.raw_induct [rotated 1, consumes 1])
  case (1 get s this name y)
  show ?case
  proof (cases "throwIfInvalidName name")
    case True
    with "1.hyps" show ?thesis by auto
  next
    case False
    define k where "k = the_string name"
    with "1.prems" have bare: "CHR ''/'' \<notin> set k" by simp
    show ?thesis
    proof (cases this)
      case (Readonly j)
      with "1.hyps" False bare show ?thesis
        by (auto simp: k_def [symmetric] getPropData_bare_Readonly)
    next
      case (Plain j)
      show ?thesis
      proof (cases "parent (heap s ! j)")
        case None
        with "1.hyps" False bare Plain show ?thesis
          by (auto simp: k_def [symmetric] getPropData_bare split: if_splits)
      next
        case (Some p)
        with "1.hyps" False bare Plain "1.IH" [of s p "JStr k"] show ?thesis
          by (auto simp: k_def [symmetric] getPropData_bare Option.bind_eq_Some_conv
                   split: if_splits)
      qed
    qed
  qed
qed





text \<open>
  C3. A subscriber of \<open>root.get('child/key')\<close> does not see a later
  \<open>root.set('child/key', v)\<close>: the event carries the name \<open>key\<close>, the filter of \<open>get\<close>
  compares it with \<open>child/key\<close>. The child holds the value, the subscriber has seen
  nothing.
\<close>

theorem path_subscriber_misses_set:
  "path_subscriber v = Some (Inr True, [])"
  by code_simp

text \<open>
  When the name that \<open>get\<close> filters by is the name that \<open>set\<close> emits, as it is for a bare
  key, the first local \<open>set\<close> is delivered and ends the inherited values, and from then on
  the subscriber sees the local values, each and in order.
\<close>

lemma observe_local:
  "observe (SMerge (SChanges i name) SDone) es = local_sets i name es"
proof (induction es)
  case Nil
  show ?case by (simp add: local_sets_def)
next
  case (Cons e es)
  obtain j ev where e: "e = (j, ev)" by (cases e)
  have "snd (deliver (SMerge (SChanges i name) SDone) e) = SMerge (SChanges i name) SDone"
    by (cases ev) (simp_all add: e)
  moreover have "fst (deliver (SMerge (SChanges i name) SDone) e) = fst (deliver (SChanges i name) e)"
    by simp
  ultimately show ?case using Cons.IH by (simp add: local_sets_def)
qed

lemma subscribe_get_result_sub:
  "\<exists>rest. snd (subscribe (get_result i name prop m inherit)) = SMerge (SChanges i name) rest
     \<and> (rest = SDone \<or> (\<exists>k. rest = STakeUntil k (SChanges i name)))"
proof (cases "snd (subscribe inherit)")
  case SDone
  then show ?thesis by (auto simp: get_result_def Let_def)
qed (auto simp: get_result_def Let_def)

lemma bare_set_delivered:
  "deliver (snd (subscribe (get_result i name prop m inherit))) (i, ItemSet name v)
     = ([v], SMerge (SChanges i name) SDone)"
proof -
  from subscribe_get_result_sub [of i name "prop" m inherit] obtain rest where
    "snd (subscribe (get_result i name prop m inherit)) = SMerge (SChanges i name) rest"
    and "rest = SDone \<or> (\<exists>k. rest = STakeUntil k (SChanges i name))" by blast
  then show ?thesis by auto
qed

lemma Store_get_bare_result:
  assumes "Store_get s (Plain n) (JStr k) = Some (Inr source, s')" and "CHR ''/'' \<notin> set k"
  shows "n < length (heap s) \<and> \<not> throwIfInvalidName (JStr k)
         \<and> (\<exists>inherit. source = get_result n k k (heap s ! n) inherit)"
proof -
  from assms(1) have valid: "\<not> throwIfInvalidName (JStr k)"
    by (subst (asm) Store_get.simps) (auto split: if_splits)
  from assms valid have n: "n < length (heap s)"
    by (subst (asm) Store_get.simps) (auto simp: getPropData_bare split: if_splits)
  from assms valid n obtain x :: "error + obs" where
    "map_sum id (get_result n k k (heap s ! n)) x = Inr source"
    by (subst (asm) Store_get.simps)
       (auto simp: getPropData_bare Option.bind_eq_Some_conv)
  then have "\<exists>inherit. source = get_result n k k (heap s ! n) inherit"
    by (cases x) auto
  with valid n show ?thesis by simp
qed

lemma bare_key_set_observed:
  assumes "call_get s (Plain n) (JStr k) = Some (Inr source, s1)" and "CHR ''/'' \<notin> set k"
    and "call_set s1 (Plain n) (JStr k) v = (res, s2)"
  shows "observed source s1 s2 = fst (subscribe source) @ [v]"
proof -
  from assms(1) have g: "Store_get s (Plain n) (JStr k) = Some (Inr source, s1)"
    by (simp add: call_get_def)
  from Store_get_bare_state [OF g] assms(2) have s1: "s1 = s" by simp
  from Store_get_bare_result [OF g assms(2)] obtain inherit where
    n: "n < length (heap s)" and valid: "\<not> throwIfInvalidName (JStr k)"
    and source: "source = get_result n k k (heap s ! n) inherit" by blast
  from assms(3) valid assms(2) n have "emitted s2 = emitted s1 @ [(n, ItemSet k v)]"
    by (auto simp: s1 call_set_def Store_set_bare)
  then show ?thesis
    by (simp add: observed_def source bare_set_delivered)
qed

section \<open>Reachable states\<close>

text \<open>Every state the program reaches is well-formed.\<close>

lemma wf_Store_delete:
  assumes "well_formed s" "Store_delete s r name = (res, s')"
  shows "well_formed s'"
proof (cases "throwIfInvalidName name")
  case True
  with assms show ?thesis by (simp add: Store_delete_def)
next
  case False
  obtain x s1 where g: "getPropData s r (the_string name) = (x, s1)"
    by (cases "getPropData s r (the_string name)")
  from g assms(1) have w1: "well_formed s1" by (rule getPropData_wf)
  show ?thesis
  proof (cases x)
    case (Inl e)
    with assms(2) False g w1 show ?thesis by (simp add: Store_delete_def)
  next
    case (Inr t)
    obtain store key m where t: "t = (store, key, m)" by (cases t)
    from g Inr t have "store < length (heap s1)" by (auto dest: getPropData_store)
    with w1 have "well_formed (emit store (ItemRemoved key) (set_items store (AList.delete key (items m)) s1))"
      by (rule wf_set_items)
    with assms(2) False g Inr t show ?thesis by (auto simp: Store_delete_def)
  qed
qed

lemma wf_Store_get:
  assumes "well_formed s" "Store_get s r name = Some (res, s')"
  shows "well_formed s'"
proof (cases "throwIfInvalidName name")
  case True
  with assms show ?thesis by (subst (asm) Store_get.simps) simp
next
  case False
  obtain x s1 where g: "getPropData s r (the_string name) = (x, s1)"
    by (cases "getPropData s r (the_string name)")
  from g assms(1) have w1: "well_formed s1" by (rule getPropData_wf)
  show ?thesis
  proof (cases x)
    case (Inl e)
    with assms(2) False g w1 show ?thesis by (subst (asm) Store_get.simps) simp
  next
    case (Inr t)
    obtain store key m where t: "t = (store, key, m)" by (cases t)
    from g Inr t have key: "CHR ''/'' \<notin> set key"
      using getPropData_store [of s r "the_string name" store key m s1]
      by (simp add: last_split_bare)
    from assms(2) False g Inr t obtain y where
      rec: "(case parent m of
               None \<Rightarrow> Some (Inr Empty, s1)
             | Some p \<Rightarrow> Store_get s1 p (JStr key)) = Some (y, s')"
      by (subst (asm) Store_get.simps) (auto simp: Option.bind_eq_Some_conv)
    have "s' = s1"
    proof (cases "parent m")
      case None
      with rec show ?thesis by simp
    next
      case (Some p)
      with rec have "Store_get s1 p (JStr key) = Some (y, s')" by simp
      from Store_get_bare_state [OF this] key show ?thesis by simp
    qed
    with w1 show ?thesis by simp
  qed
qed

lemma same_shape_remove_each:
  "i < length (heap s) \<Longrightarrow> same_shape s (remove_each i its s)"
  by (rule same_shape_items [OF _ remove_each_heap])

lemma clear_shape:
  "(\<forall>s r nested res s'. Store_clear n s r nested = Some (res, s') \<longrightarrow> same_shape s s')
   \<and> (\<forall>s cs res s'. clear_children n s cs = Some (res, s') \<longrightarrow> same_shape s s')"
proof (induction n)
  case 0
  have "clear_children 0 s cs = Some (res, s') \<longrightarrow> same_shape s s'" for s cs res s'
    by (cases cs) (simp_all add: same_shape_refl)
  then show ?case by simp
next
  case (Suc n)
  have one: "same_shape s s'" if run: "Store_clear (Suc n) s r nested = Some (res, s')"
    for s r nested res s'
  proof (cases r)
    case (Readonly p)
    with run show ?thesis by (simp add: same_shape_refl)
  next
    case (Plain i)
    show ?thesis
    proof (cases "i < length (heap s)")
      case False
      with run Plain show ?thesis by (simp add: data_get_def same_shape_refl)
    next
      case True
      let ?s1 = "remove_each i (items (heap s ! i)) s"
      from True have shape1: "same_shape s ?s1" by (rule same_shape_remove_each)
      show ?thesis
      proof (cases "truthy nested")
        case False
        with run Plain True have "s' = emit i StoreCleared ?s1"
          by (simp add: data_get_def)
        with shape1 show ?thesis by (simp add: same_shape_emit)
      next
        case nested: True
        from run Plain True nested obtain x s2 where
          kids: "clear_children n ?s1 (forOwn (children (heap ?s1 ! i))) = Some (x, s2)"
          and s': "s' = s2 \<or> s' = emit i StoreCleared s2"
          by (auto simp: data_get_def Let_def split: option.splits sum.splits)
        from Suc.IH kids have "same_shape ?s1 s2" by blast
        with shape1 have "same_shape s s2" by (rule same_shape_trans)
        with s' show ?thesis by (auto simp: same_shape_emit)
      qed
    qed
  qed
  have many: "clear_children (Suc n) s cs = Some (res, s') \<longrightarrow> same_shape s s'" for s cs res s'
  proof (induction cs arbitrary: s)
    case Nil
    show ?case by (simp add: same_shape_refl)
  next
    case (Cons c cs)
    show ?case
    proof
      assume run: "clear_children (Suc n) s (c # cs) = Some (res, s')"
      then obtain x s1 where
        first: "Store_clear (Suc n) s (Plain c) (JBool True) = Some (x, s1)"
        and rest: "s' = s1 \<or> clear_children (Suc n) s1 cs = Some (res, s')"
        by (auto simp del: Store_clear.simps split: option.splits sum.splits)
      from first have "same_shape s s1" by (rule one)
      with rest Cons.IH [of s1] show "same_shape s s'" by (auto intro: same_shape_trans)
    qed
  qed
  from one many show ?case by blast
qed

lemma wf_call_clear:
  assumes "well_formed s" "call_clear n s r nested = Some (res, s')"
  shows "well_formed s'"
proof (cases "lookup r M_clear")
  case None
  with assms show ?thesis by (simp add: call_clear_def)
next
  case (Some t)
  with assms(2) have "Store_clear n s t nested = Some (res, s')" by (simp add: call_clear_def)
  with clear_shape [of n] have "same_shape s s'" by blast
  then show ?thesis using assms(1) by (rule wf_same_shape)
qed

lemma reachable_wf: "reachable s \<Longrightarrow> well_formed s"
proof (induction rule: reachable.induct)
  case start
  show ?case by (rule wf_empty)
next
  case (constructed s a)
  obtain res s' where st: "Store s a = (res, s')" by (cases "Store s a")
  from constructed.hyps(2) have "\<forall>p. a = AncestorRef (Plain p) \<longrightarrow> p < length (heap s)" by auto
  with constructed.IH st have "well_formed s'" by (rule wf_Store)
  with st show ?case by simp
next
  case (resolved s r name)
  then show ?case by (cases "call_for s r name") (auto dest: wf_call_for)
next
  case (read s r name res s')
  then show ?case by (auto simp: call_get_def dest: wf_Store_get)
next
  case (written s r name v)
  then show ?case
    by (cases "call_set s r name v"; cases "lookup r M_set")
       (auto simp: call_set_def dest: wf_Store_set)
next
  case (deleted s r name)
  then show ?case
    by (cases "call_delete s r name"; cases "lookup r M_delete")
       (auto simp: call_delete_def dest: wf_Store_delete)
next
  case (removed s r name)
  then show ?case
    by (cases "call_remove s r name") (auto simp: call_remove_def dest: wf_Store_delete)
next
  case (cleared s n r nested res' s')
  then show ?case by (auto dest: wf_call_clear)
qed

text \<open>Every state the program reaches is a forest.\<close>

lemma owned_empty: "owned empty_state"
  by (simp add: owned_def empty_state_def)

lemma owned_added:
  assumes "well_formed s" "owned s" "i < length (heap s)"
  shows "owned (added s i name)"
  unfolding owned_iff
proof (intro allI impI)
  let ?s = "added s i name"
  fix j assume j: "j < length (heap ?s)"
  have len: "length (heap ?s) = Suc (length (heap s))" by (simp add: added_def)
  have par: "parent (heap ?s ! c) = parent (heap s ! c)" if "c < length (heap s)" for c
    using that assms(3) by (cases "c = i") (simp_all add: added_def nth_append)
  have new: "parent (heap ?s ! length (heap s)) = Some (Plain i)"
    using assms(3) by (simp add: added_def nth_append)
  have old: "c < length (heap s) \<and> parent (heap s ! c) = Some (Plain k)"
    if "k < length (heap s)" "(n, c) \<in> set (children (heap s ! k))" for k n c
    using that assms(1,2) by (auto simp: owned_iff dest: wf_child_mem)
  consider "j = length (heap s)" | "j = i" | "j < length (heap s)" "j \<noteq> i"
    using j len by linarith
  then show "distinct (map snd (children (heap ?s ! j)))
             \<and> (\<forall>(n, c) \<in> set (children (heap ?s ! j)).
                   c < length (heap ?s) \<and> parent (heap ?s ! c) = Some (Plain j))"
  proof cases
    case 1
    with assms(3) show ?thesis by (simp add: added_def nth_append)
  next
    case 2
    have kids: "children (heap ?s ! i) = children (heap s ! i) @ [(name, length (heap s))]"
      using assms(3) by (simp add: added_def nth_append)
    from assms(2,3) have "distinct (map snd (children (heap s ! i)))" by (simp add: owned_iff)
    moreover have "length (heap s) \<notin> snd ` set (children (heap s ! i))"
      using old [OF assms(3)] by force
    ultimately have "distinct (map snd (children (heap ?s ! i)))" by (simp add: kids)
    moreover have "\<forall>(n, c) \<in> set (children (heap ?s ! i)).
                     c < length (heap ?s) \<and> parent (heap ?s ! c) = Some (Plain i)"
      using old [OF assms(3)] par new by (auto simp: kids len less_Suc_eq)
    ultimately show ?thesis using 2 by simp
  next
    case 3
    then have "children (heap ?s ! j) = children (heap s ! j)"
      by (simp add: added_def nth_append)
    moreover from assms(2) 3 have "distinct (map snd (children (heap s ! j)))"
      by (simp add: owned_iff)
    ultimately show ?thesis using old [OF 3(1)] par by (auto simp: len less_Suc_eq)
  qed
qed

lemma descend_owned:
  "descend s r name = (res, s') \<Longrightarrow> well_formed s \<Longrightarrow> owned s \<Longrightarrow> owned s'"
  using descend_cases [of s r name res s'] by (auto intro: owned_added)

lemma getChildStore_owned:
  "getChildStore s r names = (res, s') \<Longrightarrow> well_formed s \<Longrightarrow> owned s \<Longrightarrow> owned s'"
proof (induction names arbitrary: s r)
  case Nil
  then show ?case by simp
next
  case (Cons n ns)
  obtain x s1 where d: "descend s r n = (x, s1)" by (cases "descend s r n")
  with Cons.prems(2) have w: "well_formed s1" by (auto dest: descend_wf)
  from d Cons.prems(2,3) have o: "owned s1" by (rule descend_owned)
  show ?case
  proof (cases x)
    case (Inl e)
    with Cons.prems d o show ?thesis by auto
  next
    case (Inr c)
    with Cons.prems d have "getChildStore s1 c ns = (res, s')" by simp
    then show ?thesis using w o by (rule Cons.IH)
  qed
qed

lemma getPropData_owned:
  "getPropData s r name = (res, s') \<Longrightarrow> well_formed s \<Longrightarrow> owned s \<Longrightarrow> owned s'"
  by (auto simp: getPropData_def Let_def split: prod.splits sum.splits ref.splits option.splits
           dest: getChildStore_owned)

lemma owned_snoc:
  assumes "well_formed s" "owned s" "heap s' = heap s @ [m]" "children m = []"
  shows "owned s'"
  unfolding owned_iff
proof (intro allI impI)
  fix i assume "i < length (heap s')"
  with assms(3) consider "i < length (heap s)" | "i = length (heap s)" by fastforce
  then show "distinct (map snd (children (heap s' ! i)))
             \<and> (\<forall>(n, c) \<in> set (children (heap s' ! i)).
                   c < length (heap s') \<and> parent (heap s' ! c) = Some (Plain i))"
  proof cases
    case 1
    then have "children (heap s' ! i) = children (heap s ! i)" by (simp add: assms(3) nth_append)
    moreover from assms(2) 1 have "distinct (map snd (children (heap s ! i)))"
      by (simp add: owned_iff)
    moreover have "c < length (heap s) \<and> parent (heap s ! c) = Some (Plain i)"
      if "(n, c) \<in> set (children (heap s ! i))" for n c
      using that 1 assms(1,2) by (auto simp: owned_iff dest: wf_child_mem)
    ultimately show ?thesis by (auto simp: assms(3) nth_append)
  next
    case 2
    with assms(4) show ?thesis by (simp add: assms(3))
  qed
qed

lemma owned_Store:
  assumes "well_formed s" "owned s" "Store s a = (res, s')"
  shows "owned s'"
proof (cases a)
  case NoAncestor
  with assms(3) have "heap s' = heap s @ [\<lparr>children = [], parent = None, items = []\<rparr>]" by auto
  with assms(1,2) show ?thesis by (rule owned_snoc) simp
next
  case (AncestorRef r)
  with assms(3) have "heap s' = heap s @ [\<lparr>children = [], parent = Some r, items = []\<rparr>]" by auto
  with assms(1,2) show ?thesis by (rule owned_snoc) simp
next
  case (AncestorOther v)
  with assms show ?thesis by simp
qed

lemma owned_call_for:
  "well_formed s \<Longrightarrow> owned s \<Longrightarrow> call_for s r name = (res, s') \<Longrightarrow> owned s'"
  by (auto simp: call_for_def Store_for_def split: if_splits dest: getChildStore_owned)

lemma owned_set_items:
  "owned s \<Longrightarrow> i < length (heap s) \<Longrightarrow> owned (emit i e (set_items i its s))"
  by (rule owned_same_shape [OF same_shape_emit [OF same_shape_items]]) simp_all

lemma owned_Store_set:
  assumes "well_formed s" "owned s" "Store_set s r name v = (res, s')"
  shows "owned s'"
proof (cases "throwIfInvalidName name")
  case True
  with assms show ?thesis by (simp add: Store_set_def)
next
  case False
  obtain x s1 where g: "getPropData s r (the_string name) = (x, s1)"
    by (cases "getPropData s r (the_string name)")
  from g assms(1,2) have o1: "owned s1" by (rule getPropData_owned)
  show ?thesis
  proof (cases x)
    case (Inl e)
    with assms(3) False g o1 show ?thesis by (simp add: Store_set_def)
  next
    case (Inr t)
    obtain store key m where t: "t = (store, key, m)" by (cases t)
    from g Inr t have "store < length (heap s1)" by (auto dest: getPropData_store)
    with o1 have "owned (emit store (ItemSet key v) (set_items store (AList.update key v (items m)) s1))"
      by (rule owned_set_items)
    with assms(3) False g Inr t show ?thesis by (auto simp: Store_set_def)
  qed
qed

lemma owned_Store_delete:
  assumes "well_formed s" "owned s" "Store_delete s r name = (res, s')"
  shows "owned s'"
proof (cases "throwIfInvalidName name")
  case True
  with assms show ?thesis by (simp add: Store_delete_def)
next
  case False
  obtain x s1 where g: "getPropData s r (the_string name) = (x, s1)"
    by (cases "getPropData s r (the_string name)")
  from g assms(1,2) have o1: "owned s1" by (rule getPropData_owned)
  show ?thesis
  proof (cases x)
    case (Inl e)
    with assms(3) False g o1 show ?thesis by (simp add: Store_delete_def)
  next
    case (Inr t)
    obtain store key m where t: "t = (store, key, m)" by (cases t)
    from g Inr t have "store < length (heap s1)" by (auto dest: getPropData_store)
    with o1 have "owned (emit store (ItemRemoved key) (set_items store (AList.delete key (items m)) s1))"
      by (rule owned_set_items)
    with assms(3) False g Inr t show ?thesis by (auto simp: Store_delete_def)
  qed
qed

lemma owned_Store_get:
  assumes "well_formed s" "owned s" "Store_get s r name = Some (res, s')"
  shows "owned s'"
proof (cases "throwIfInvalidName name")
  case True
  with assms show ?thesis by (subst (asm) Store_get.simps) simp
next
  case False
  obtain x s1 where g: "getPropData s r (the_string name) = (x, s1)"
    by (cases "getPropData s r (the_string name)")
  from g assms(1,2) have o1: "owned s1" by (rule getPropData_owned)
  show ?thesis
  proof (cases x)
    case (Inl e)
    with assms(3) False g o1 show ?thesis by (subst (asm) Store_get.simps) simp
  next
    case (Inr t)
    obtain store key m where t: "t = (store, key, m)" by (cases t)
    from g Inr t have key: "CHR ''/'' \<notin> set key"
      using getPropData_store [of s r "the_string name" store key m s1]
      by (simp add: last_split_bare)
    from assms(3) False g Inr t obtain y where
      rec: "(case parent m of
               None \<Rightarrow> Some (Inr Empty, s1)
             | Some p \<Rightarrow> Store_get s1 p (JStr key)) = Some (y, s')"
      by (subst (asm) Store_get.simps) (auto simp: Option.bind_eq_Some_conv)
    have "s' = s1"
    proof (cases "parent m")
      case None
      with rec show ?thesis by simp
    next
      case (Some p)
      with rec have "Store_get s1 p (JStr key) = Some (y, s')" by simp
      from Store_get_bare_state [OF this] key show ?thesis by simp
    qed
    with o1 show ?thesis by simp
  qed
qed

lemma owned_call_clear:
  assumes "owned s" "call_clear n s r nested = Some (res, s')"
  shows "owned s'"
proof (cases "lookup r M_clear")
  case None
  with assms show ?thesis by (simp add: call_clear_def)
next
  case (Some t)
  with assms(2) have "Store_clear n s t nested = Some (res, s')" by (simp add: call_clear_def)
  with clear_shape [of n] have "same_shape s s'" by blast
  then show ?thesis using assms(1) by (rule owned_same_shape)
qed

lemma reachable_owned: "reachable s \<Longrightarrow> owned s"
proof (induction rule: reachable.induct)
  case start
  show ?case by (rule owned_empty)
next
  case (constructed s a)
  obtain res s' where st: "Store s a = (res, s')" by (cases "Store s a")
  from constructed.hyps(1) have "well_formed s" by (rule reachable_wf)
  from this constructed.IH st have "owned s'" by (rule owned_Store)
  with st show ?case by simp
next
  case (resolved s r name)
  from resolved.hyps have "well_formed s" by (rule reachable_wf)
  with resolved.IH show ?case by (cases "call_for s r name") (auto dest: owned_call_for)
next
  case (read s r name res s')
  from read.hyps(1) have "well_formed s" by (rule reachable_wf)
  with read show ?case by (auto simp: call_get_def dest: owned_Store_get)
next
  case (written s r name v)
  from written.hyps have "well_formed s" by (rule reachable_wf)
  with written.IH show ?case
    by (cases "call_set s r name v"; cases "lookup r M_set")
       (auto simp: call_set_def dest: owned_Store_set)
next
  case (deleted s r name)
  from deleted.hyps have "well_formed s" by (rule reachable_wf)
  with deleted.IH show ?case
    by (cases "call_delete s r name"; cases "lookup r M_delete")
       (auto simp: call_delete_def dest: owned_Store_delete)
next
  case (removed s r name)
  from removed.hyps have "well_formed s" by (rule reachable_wf)
  with removed.IH show ?case
    by (cases "call_remove s r name") (auto simp: call_remove_def dest: owned_Store_delete)
next
  case (cleared s n r nested res' s')
  then show ?case by (auto dest: owned_call_clear)
qed

end
